theory Spec2Isabelle
  imports Main "HOL-Library.Code_Target_Nat"
begin

section \<open>JavaScript values\<close>

text \<open>
  A JavaScript string is a sequence of UTF-16 code units. Isabelle's \<open>char\<close> has eight
  bits, so the code units are natural numbers (each below 65536 in a real string), and
  \<open>lit\<close> turns an ASCII literal of the source into its code units.
\<close>

type_synonym jstring = "nat list"

definition lit :: "string \<Rightarrow> jstring" where
  "lit s = map of_char s"

text \<open>
  The values that cross the cache are JSON values: what the backend sends and what
  \<open>JSON.parse\<close> returns. Numbers are the integers (timestamps, identifiers, counts);
  fractions are outside this development. An object is the list of its own properties in
  enumeration order. \<open>undefined\<close> is not a JSON value: an expression that may be
  \<open>undefined\<close> has type \<open>json option\<close>.
\<close>

datatype json =
    JNull
  | JBool bool
  | JNum int
  | JStr jstring
  | JArr "json list"
  | JObj "(jstring \<times> json) list"

type_synonym json_object = "(jstring \<times> json) list"

datatype js_error =
    SyntaxError
  | TypeError
  | InvalidCharacterError
  | DataError
  | ConstraintError
  | OpenFailed
  | NetworkError

text \<open>Property read \<open>o[k]\<close>, property write \<open>o[k] = v\<close> (an existing property keeps its
  place, a new one goes last) and removal of a property.\<close>

fun obj_get :: "json_object \<Rightarrow> jstring \<Rightarrow> json option" where
  "obj_get [] k = None"
| "obj_get ((k', v) # kvs) k = (if k' = k then Some v else obj_get kvs k)"

fun obj_set :: "jstring \<Rightarrow> json \<Rightarrow> json_object \<Rightarrow> json_object" where
  "obj_set k v [] = [(k, v)]"
| "obj_set k v ((k', v') # kvs) =
     (if k' = k then (k', v) # kvs else (k', v') # obj_set k v kvs)"

definition obj_remove :: "jstring \<Rightarrow> json_object \<Rightarrow> json_object" where
  "obj_remove k kvs = filter (\<lambda>kv. fst kv \<noteq> k) kvs"

text \<open>\<open>v.k\<close> and \<open>v?.k\<close> for a property that only a plain object can have: on a
  number, a boolean, a string or an array the read gives \<open>undefined\<close>; on \<open>null\<close>
  the plain read throws and the optional one gives \<open>undefined\<close>.\<close>

definition get_prop :: "json \<Rightarrow> jstring \<Rightarrow> js_error + json option" where
  "get_prop v k =
     (case v of
        JNull \<Rightarrow> Inl TypeError
      | JObj kvs \<Rightarrow> Inr (obj_get kvs k)
      | _ \<Rightarrow> Inr None)"

definition get_prop_opt :: "json \<Rightarrow> jstring \<Rightarrow> json option" where
  "get_prop_opt v k = (case v of JObj kvs \<Rightarrow> obj_get kvs k | _ \<Rightarrow> None)"

definition truthy :: "json \<Rightarrow> bool" where
  "truthy v =
     (case v of
        JNull \<Rightarrow> False
      | JBool b \<Rightarrow> b
      | JNum n \<Rightarrow> n \<noteq> 0
      | JStr s \<Rightarrow> s \<noteq> []
      | _ \<Rightarrow> True)"

section \<open>JSON.stringify\<close>

fun digits :: "nat \<Rightarrow> jstring" where
  "digits n = (if n < 10 then [48 + n] else digits (n div 10) @ [48 + n mod 10])"

declare digits.simps [simp del]

text \<open>The decimal text of an integer, as JavaScript prints a number of magnitude below
  \<open>10^21\<close> that has no fraction.\<close>

definition number_text :: "int \<Rightarrow> jstring" where
  "number_text i = (if i < 0 then 45 # digits (nat (- i)) else digits (nat i))"

definition hex_digit :: "nat \<Rightarrow> nat" where
  "hex_digit d = (if d < 10 then 48 + d else 87 + d)"

definition unicode_escape :: "nat \<Rightarrow> jstring" where
  "unicode_escape c =
     [92, 117, hex_digit (c div 4096 mod 16), hex_digit (c div 256 mod 16),
      hex_digit (c div 16 mod 16), hex_digit (c mod 16)]"

text \<open>The escape of one code unit that is not a surrogate.\<close>

definition escape_unit :: "nat \<Rightarrow> jstring" where
  "escape_unit c =
     (if c = 34 then [92, 34]
      else if c = 92 then [92, 92]
      else if c = 8 then [92, 98]
      else if c = 12 then [92, 102]
      else if c = 10 then [92, 110]
      else if c = 13 then [92, 114]
      else if c = 9 then [92, 116]
      else if c < 32 then unicode_escape c
      else [c])"

definition high_surrogate :: "nat \<Rightarrow> bool" where
  "high_surrogate c = (55296 \<le> c \<and> c \<le> 56319)"

definition low_surrogate :: "nat \<Rightarrow> bool" where
  "low_surrogate c = (56320 \<le> c \<and> c \<le> 57343)"

text \<open>A surrogate pair is copied; a lone surrogate is written as a \<open>\u\<close> escape.\<close>

fun quote_units :: "jstring \<Rightarrow> jstring" where
  "quote_units [] = []"
| "quote_units [c] =
     (if high_surrogate c \<or> low_surrogate c then unicode_escape c else escape_unit c)"
| "quote_units (c # d # cs) =
     (if high_surrogate c then
        (if low_surrogate d then c # d # quote_units cs
         else unicode_escape c @ quote_units (d # cs))
      else if low_surrogate c then unicode_escape c @ quote_units (d # cs)
      else escape_unit c @ quote_units (d # cs))"

definition quote :: "jstring \<Rightarrow> jstring" where
  "quote s = 34 # quote_units s @ [34]"

fun JSON_stringify :: "json \<Rightarrow> jstring"
  and stringify_elems :: "json list \<Rightarrow> jstring"
  and stringify_members :: "(jstring \<times> json) list \<Rightarrow> jstring"
where
  "JSON_stringify JNull = lit ''null''"
| "JSON_stringify (JBool b) = (if b then lit ''true'' else lit ''false'')"
| "JSON_stringify (JNum i) = number_text i"
| "JSON_stringify (JStr s) = quote s"
| "JSON_stringify (JArr xs) = 91 # stringify_elems xs @ [93]"
| "JSON_stringify (JObj kvs) = 123 # stringify_members kvs @ [125]"
| "stringify_elems [] = []"
| "stringify_elems [x] = JSON_stringify x"
| "stringify_elems (x # y # ys) = JSON_stringify x @ 44 # stringify_elems (y # ys)"
| "stringify_members [] = []"
| "stringify_members [(k, v)] = quote k @ 58 # JSON_stringify v"
| "stringify_members ((k, v) # kv # kvs) =
     quote k @ 58 # JSON_stringify v @ 44 # stringify_members (kv # kvs)"

section \<open>The hashing utility\<close>

text \<open>
  \<open>hash << 5\<close> and \<open>hash & hash\<close> convert their operand to a signed 32-bit integer;
  the subtraction and the addition between them are exact.
\<close>

definition to_int32 :: "int \<Rightarrow> int" where
  "to_int32 x = (x + 2147483648) mod 4294967296 - 2147483648"

definition hash_step :: "int \<Rightarrow> nat \<Rightarrow> int" where
  "hash_step h c = to_int32 ((to_int32 (h * 32) - h) + int c)"

definition base36_digit :: "nat \<Rightarrow> nat" where
  "base36_digit d = (if d < 10 then 48 + d else 87 + d)"

fun toString36 :: "nat \<Rightarrow> jstring" where
  "toString36 n =
     (if n < 36 then [base36_digit n] else toString36 (n div 36) @ [base36_digit (n mod 36)])"

declare toString36.simps [simp del]

definition generateHash :: "json \<Rightarrow> jstring" where
  "generateHash data = toString36 (nat \<bar>foldl hash_step 0 (JSON_stringify data)\<bar>)"

section \<open>JSON.parse\<close>

definition is_ws :: "nat \<Rightarrow> bool" where
  "is_ws c = (c = 32 \<or> c = 9 \<or> c = 10 \<or> c = 13)"

definition skip_ws :: "jstring \<Rightarrow> jstring" where
  "skip_ws s = dropWhile is_ws s"

definition is_digit :: "nat \<Rightarrow> bool" where
  "is_digit c = (48 \<le> c \<and> c \<le> 57)"

fun take_digits :: "nat \<Rightarrow> jstring \<Rightarrow> nat \<times> jstring" where
  "take_digits acc [] = (acc, [])"
| "take_digits acc (c # cs) =
     (if is_digit c then take_digits (acc * 10 + (c - 48)) cs else (acc, c # cs))"

text \<open>The integer part of a number: a single \<open>0\<close>, or digits that start with a nonzero
  one. A fraction or an exponent after it denotes a number outside \<open>int\<close>; the parser
  of this development rejects it.\<close>

definition integer_only :: "nat \<times> jstring \<Rightarrow> (nat \<times> jstring) option" where
  "integer_only r =
     (case snd r of
        [] \<Rightarrow> Some r
      | c # cs \<Rightarrow> if c = 46 \<or> c = 101 \<or> c = 69 then None else Some r)"

definition parse_nat :: "jstring \<Rightarrow> (nat \<times> jstring) option" where
  "parse_nat s =
     (case s of
        [] \<Rightarrow> None
      | c # cs \<Rightarrow>
          if c = 48 then integer_only (0, cs)
          else if is_digit c then integer_only (take_digits 0 s)
          else None)"

definition parse_number :: "jstring \<Rightarrow> (int \<times> jstring) option" where
  "parse_number s =
     (case s of
        [] \<Rightarrow> None
      | c # cs \<Rightarrow>
          if c = 45 then map_option (\<lambda>r. (- int (fst r), snd r)) (parse_nat cs)
          else map_option (\<lambda>r. (int (fst r), snd r)) (parse_nat s))"

definition hex_value :: "nat \<Rightarrow> nat option" where
  "hex_value c =
     (if 48 \<le> c \<and> c \<le> 57 then Some (c - 48)
      else if 97 \<le> c \<and> c \<le> 102 then Some (c - 87)
      else if 65 \<le> c \<and> c \<le> 70 then Some (c - 55)
      else None)"

definition hex4 :: "nat \<Rightarrow> nat \<Rightarrow> nat \<Rightarrow> nat \<Rightarrow> nat option" where
  "hex4 a b c d =
     (case (hex_value a, hex_value b, hex_value c, hex_value d) of
        (Some w, Some x, Some y, Some z) \<Rightarrow> Some (w * 4096 + x * 256 + y * 16 + z)
      | _ \<Rightarrow> None)"

definition unescape :: "nat \<Rightarrow> nat option" where
  "unescape e =
     (if e = 34 then Some 34
      else if e = 92 then Some 92
      else if e = 47 then Some 47
      else if e = 98 then Some 8
      else if e = 102 then Some 12
      else if e = 110 then Some 10
      else if e = 114 then Some 13
      else if e = 116 then Some 9
      else None)"

definition cons_unit :: "nat \<Rightarrow> (jstring \<times> jstring) option \<Rightarrow> (jstring \<times> jstring) option" where
  "cons_unit c r = map_option (\<lambda>p. (c # fst p, snd p)) r"

text \<open>The code units of a string literal after its opening quote, and what follows the
  closing quote.\<close>

fun parse_chars :: "jstring \<Rightarrow> (jstring \<times> jstring) option" where
  "parse_chars [] = None"
| "parse_chars (c # cs) =
     (if c = 34 then Some ([], cs)
      else if c = 92 then
        (case cs of
           [] \<Rightarrow> None
         | e # r \<Rightarrow>
             if e = 117 then
               (case r of
                  h1 # h2 # h3 # h4 # r' \<Rightarrow>
                    (case hex4 h1 h2 h3 h4 of
                       None \<Rightarrow> None
                     | Some u \<Rightarrow> cons_unit u (parse_chars r'))
                | _ \<Rightarrow> None)
             else
               (case unescape e of
                  None \<Rightarrow> None
                | Some u \<Rightarrow> cons_unit u (parse_chars r)))
      else if c < 32 then None
      else cons_unit c (parse_chars cs))"

definition starts_with :: "jstring \<Rightarrow> jstring \<Rightarrow> bool" where
  "starts_with p s = (take (length p) s = p)"

text \<open>A later property of the same name replaces the value of the earlier one.\<close>

definition object_of_members :: "(jstring \<times> json) list \<Rightarrow> json" where
  "object_of_members kvs = JObj (foldl (\<lambda>ob kv. obj_set (fst kv) (snd kv) ob) [] kvs)"

text \<open>
  Recursive descent. The first argument bounds the nesting and the number of elements;
  every call consumes a code unit, so the length of the text is always enough
  (\<open>JSON_parse\<close> below starts with more).
\<close>

fun parse_value :: "nat \<Rightarrow> jstring \<Rightarrow> (json \<times> jstring) option"
  and parse_elems :: "nat \<Rightarrow> jstring \<Rightarrow> (json list \<times> jstring) option"
  and parse_members :: "nat \<Rightarrow> jstring \<Rightarrow> ((jstring \<times> json) list \<times> jstring) option"
where
  "parse_value 0 s = None"
| "parse_value (Suc n) s =
     (case skip_ws s of
        [] \<Rightarrow> None
      | c # cs \<Rightarrow>
          if c = 123 then
            (case skip_ws cs of
               [] \<Rightarrow> None
             | d # r \<Rightarrow>
                 if d = 125 then Some (JObj [], r)
                 else map_option (\<lambda>p. (object_of_members (fst p), snd p)) (parse_members n cs))
          else if c = 91 then
            (case skip_ws cs of
               [] \<Rightarrow> None
             | d # r \<Rightarrow>
                 if d = 93 then Some (JArr [], r)
                 else map_option (\<lambda>p. (JArr (fst p), snd p)) (parse_elems n cs))
          else if c = 34 then map_option (\<lambda>p. (JStr (fst p), snd p)) (parse_chars cs)
          else if starts_with (lit ''null'') (c # cs) then Some (JNull, drop 4 (c # cs))
          else if starts_with (lit ''true'') (c # cs) then Some (JBool True, drop 4 (c # cs))
          else if starts_with (lit ''false'') (c # cs) then Some (JBool False, drop 5 (c # cs))
          else map_option (\<lambda>p. (JNum (fst p), snd p)) (parse_number (c # cs)))"
| "parse_elems 0 s = None"
| "parse_elems (Suc n) s =
     (case parse_value n s of
        None \<Rightarrow> None
      | Some (v, r) \<Rightarrow>
          (case skip_ws r of
             [] \<Rightarrow> None
           | d # r' \<Rightarrow>
               if d = 44 then map_option (\<lambda>p. (v # fst p, snd p)) (parse_elems n r')
               else if d = 93 then Some ([v], r')
               else None))"
| "parse_members 0 s = None"
| "parse_members (Suc n) s =
     (case skip_ws s of
        [] \<Rightarrow> None
      | q # s1 \<Rightarrow>
          if q \<noteq> 34 then None
          else
            (case parse_chars s1 of
               None \<Rightarrow> None
             | Some (k, s2) \<Rightarrow>
                 (case skip_ws s2 of
                    [] \<Rightarrow> None
                  | c # s3 \<Rightarrow>
                      if c \<noteq> 58 then None
                      else
                        (case parse_value n s3 of
                           None \<Rightarrow> None
                         | Some (v, s4) \<Rightarrow>
                             (case skip_ws s4 of
                                [] \<Rightarrow> None
                              | d # s5 \<Rightarrow>
                                  if d = 44 then
                                    map_option (\<lambda>p. ((k, v) # fst p, snd p)) (parse_members n s5)
                                  else if d = 125 then Some ([(k, v)], s5)
                                  else None)))))"

definition JSON_parse :: "jstring \<Rightarrow> js_error + json" where
  "JSON_parse s =
     (case parse_value (Suc (length s)) s of
        None \<Rightarrow> Inl SyntaxError
      | Some (v, r) \<Rightarrow> if skip_ws r = [] then Inr v else Inl SyntaxError)"

section \<open>btoa and atob\<close>

definition b64_char :: "nat \<Rightarrow> nat" where
  "b64_char n =
     (if n < 26 then 65 + n
      else if n < 52 then 71 + n
      else if n < 62 then n - 4
      else if n = 62 then 43
      else 47)"

definition b64_value :: "nat \<Rightarrow> nat option" where
  "b64_value c =
     (if 65 \<le> c \<and> c \<le> 90 then Some (c - 65)
      else if 97 \<le> c \<and> c \<le> 122 then Some (c - 71)
      else if 48 \<le> c \<and> c \<le> 57 then Some (c + 4)
      else if c = 43 then Some 62
      else if c = 47 then Some 63
      else None)"

text \<open>Three bytes give four groups of six bits; one or two bytes at the end give two or
  three groups, and \<open>=\<close> fills the text up to a multiple of four.\<close>

fun sextets :: "nat list \<Rightarrow> nat list" where
  "sextets [] = []"
| "sextets [a] = [a div 4, a mod 4 * 16]"
| "sextets [a, b] = [a div 4, a mod 4 * 16 + b div 16, b mod 16 * 4]"
| "sextets (a # b # c # r) =
     a div 4 # (a mod 4 * 16 + b div 16) # (b mod 16 * 4 + c div 64) # c mod 64 # sextets r"

definition b64_encode :: "nat list \<Rightarrow> jstring" where
  "b64_encode s = map b64_char (sextets s) @ replicate ((3 - length s mod 3) mod 3) 61"

text \<open>\<open>btoa\<close> throws on a code unit above 255.\<close>

definition btoa :: "jstring \<Rightarrow> js_error + jstring" where
  "btoa s = (if list_all (\<lambda>c. c \<le> 255) s then Inr (b64_encode s) else Inl InvalidCharacterError)"

fun b64_decode :: "nat list \<Rightarrow> jstring" where
  "b64_decode (w # x # y # z # r) =
     (w * 4 + x div 16) # (x mod 16 * 16 + y div 4) # (y mod 4 * 64 + z) # b64_decode r"
| "b64_decode [w, x, y] = [w * 4 + x div 16, x mod 16 * 16 + y div 4]"
| "b64_decode [w, x] = [w * 4 + x div 16]"
| "b64_decode r = []"

text \<open>Up to two \<open>=\<close> at the end of the text are dropped.\<close>

fun strip_padding :: "jstring \<Rightarrow> jstring" where
  "strip_padding [] = []"
| "strip_padding [a] = (if a = 61 then [] else [a])"
| "strip_padding [a, b] = (if b = 61 then (if a = 61 then [] else [a]) else [a, b])"
| "strip_padding (a # b # c # r) = a # strip_padding (b # c # r)"

definition ascii_ws :: "nat \<Rightarrow> bool" where
  "ascii_ws c = (c = 9 \<or> c = 10 \<or> c = 12 \<or> c = 13 \<or> c = 32)"

text \<open>\<open>atob\<close> is the forgiving base64 decoder: ASCII whitespace is removed, padding is
  dropped from a text whose length is a multiple of 4, and a text of length 1 modulo 4
  or with a code unit outside the alphabet throws.\<close>

definition atob :: "jstring \<Rightarrow> js_error + jstring" where
  "atob s =
     (let d = filter (\<lambda>c. \<not> ascii_ws c) s;
          d' = (if length d mod 4 = 0 then strip_padding d else d)
      in if length d' mod 4 = 1 then Inl InvalidCharacterError
         else
           (case those (map b64_value d') of
              None \<Rightarrow> Inl InvalidCharacterError
            | Some vs \<Rightarrow> Inr (b64_decode vs)))"

section \<open>Coercion to a number\<close>

text \<open>
  \<open>Date.now() - x\<close> and \<open>Number(x)\<close> convert \<open>x\<close> to a number; \<open>None\<close> is NaN.
  Of the numeric strings only the decimal integers have a value in \<open>int\<close>; the other
  numeric literals (hexadecimal, fractions, exponents, \<open>Infinity\<close>) are read as NaN here,
  and so is every object (a parsed object with a \<open>toString\<close> or \<open>valueOf\<close> property of
  its own would throw instead).
\<close>

definition str_ws :: "nat \<Rightarrow> bool" where
  "str_ws c =
     (c \<in> set [9, 10, 11, 12, 13, 32, 160, 5760, 8232, 8233, 8239, 8287, 12288, 65279]
      \<or> (8192 \<le> c \<and> c \<le> 8202))"

definition trim :: "jstring \<Rightarrow> jstring" where
  "trim s = rev (dropWhile str_ws (rev (dropWhile str_ws s)))"

definition unsigned_decimal :: "jstring \<Rightarrow> int option" where
  "unsigned_decimal ds =
     (if ds \<noteq> [] \<and> list_all is_digit ds then Some (int (fst (take_digits 0 ds))) else None)"

definition string_to_number :: "jstring \<Rightarrow> int option" where
  "string_to_number s =
     (case trim s of
        [] \<Rightarrow> Some 0
      | c # cs \<Rightarrow>
          if c = 45 then map_option uminus (unsigned_decimal cs)
          else if c = 43 then unsigned_decimal cs
          else unsigned_decimal (c # cs))"

fun to_number :: "json \<Rightarrow> int option" where
  "to_number JNull = Some 0"
| "to_number (JBool b) = Some (if b then 1 else 0)"
| "to_number (JNum n) = Some n"
| "to_number (JStr s) = string_to_number s"
| "to_number (JArr []) = Some 0"
| "to_number (JArr [JNull]) = Some 0"
| "to_number (JArr [JNum n]) = Some n"
| "to_number (JArr [JStr s]) = string_to_number s"
| "to_number (JArr [JArr ys]) = to_number (JArr ys)"
| "to_number (JArr xs) = None"
| "to_number (JObj kvs) = None"

definition ToNumber :: "json option \<Rightarrow> int option" where
  "ToNumber v = (case v of None \<Rightarrow> None | Some x \<Rightarrow> to_number x)"

section \<open>Constants of cache.ts\<close>

definition DB_VERSION :: int where
  "DB_VERSION = 1"

definition CACHE_DURATION :: int where
  "CACHE_DURATION = 30 * 60 * 1000"

definition USER_CACHE_KEY :: jstring where
  "USER_CACHE_KEY = lit ''sp_aroma_user''"

definition PRODUCTS_CACHE_KEY :: jstring where
  "PRODUCTS_CACHE_KEY = lit ''sp_aroma_products_meta''"

text \<open>\<open>Date.now() - t > CACHE_DURATION\<close>; a comparison with NaN is false.\<close>

definition older_than_window :: "int \<Rightarrow> json option \<Rightarrow> bool" where
  "older_than_window now t =
     (case ToNumber t of None \<Rightarrow> False | Some n \<Rightarrow> now - n > CACHE_DURATION)"

section \<open>The two stores\<close>

text \<open>
  \<open>localStorage\<close> maps keys to strings. The object store \<open>products\<close> of the IndexedDB
  database has the key path \<open>id\<close>: it holds records in the order of their keys, and the
  key of a record is the value of its \<open>id\<close> property, a number or a string (numbers come
  first). \<open>idb_available\<close> says whether \<open>initDB\<close> resolves; when it does not, the
  promise is rejected with the error of the open request.
\<close>

datatype idb_key = NumKey int | StrKey jstring

record cache_state =
  localStorage :: "jstring \<rightharpoonup> jstring"
  products_store :: "json_object list"
  idb_available :: bool

definition key_of :: "json_object \<Rightarrow> idb_key option" where
  "key_of r =
     (case obj_get r (lit ''id'') of
        Some (JNum n) \<Rightarrow> Some (NumKey n)
      | Some (JStr k) \<Rightarrow> Some (StrKey k)
      | _ \<Rightarrow> None)"

fun units_less :: "jstring \<Rightarrow> jstring \<Rightarrow> bool" where
  "units_less [] [] = False"
| "units_less [] (d # ds) = True"
| "units_less (c # cs) [] = False"
| "units_less (c # cs) (d # ds) = (c < d \<or> (c = d \<and> units_less cs ds))"

fun key_less :: "idb_key \<Rightarrow> idb_key \<Rightarrow> bool" where
  "key_less (NumKey a) (NumKey b) = (a < b)"
| "key_less (NumKey a) (StrKey t) = True"
| "key_less (StrKey s) (NumKey b) = False"
| "key_less (StrKey s) (StrKey t) = units_less s t"

definition key_before :: "idb_key \<Rightarrow> json_object \<Rightarrow> bool" where
  "key_before k r = (case key_of r of None \<Rightarrow> False | Some k' \<Rightarrow> key_less k k')"

fun store_insert :: "idb_key \<Rightarrow> json_object \<Rightarrow> json_object list \<Rightarrow> json_object list" where
  "store_insert k r [] = [r]"
| "store_insert k r (x # xs) = (if key_before k x then r # x # xs else x # store_insert k r xs)"

definition store_get :: "idb_key \<Rightarrow> json_object list \<Rightarrow> json_object option" where
  "store_get k recs = find (\<lambda>r. key_of r = Some k) recs"

text \<open>\<open>store.add(r)\<close>: a record without a valid key makes the call itself throw; a key
  that is already in the store makes the request fail later.\<close>

definition store_add :: "json_object \<Rightarrow> json_object list \<Rightarrow> js_error + json_object list" where
  "store_add r recs =
     (case key_of r of
        None \<Rightarrow> Inl DataError
      | Some k \<Rightarrow>
          (case store_get k recs of
             Some x \<Rightarrow> Inl ConstraintError
           | None \<Rightarrow> Inr (store_insert k r recs)))"

section \<open>ProductCache\<close>

text \<open>The own enumerable properties that \<open>{...product}\<close> copies.\<close>

definition spread :: "json \<Rightarrow> json_object" where
  "spread v =
     (case v of
        JObj kvs \<Rightarrow> kvs
      | JArr xs \<Rightarrow> zip (map digits [0..<length xs]) xs
      | JStr s \<Rightarrow> zip (map digits [0..<length s]) (map (\<lambda>c. JStr [c]) s)
      | _ \<Rightarrow> [])"

definition cached_record :: "int \<Rightarrow> json \<Rightarrow> json_object" where
  "cached_record timestamp product =
     obj_set (lit ''_hash'') (JStr (generateHash product))
       (obj_set (lit ''_cached_at'') (JNum timestamp) (spread product))"

text \<open>
  The loop of \<open>set\<close> over \<open>products\<close>, on the content of the store inside the
  transaction. The result is the error that left the loop (if any), the content so far,
  and whether a request has failed: a failed request aborts the transaction when its
  error event is delivered, after the calls of \<open>set\<close> have all been made.
\<close>

fun add_products ::
  "int \<Rightarrow> json list \<Rightarrow> json_object list \<Rightarrow> bool \<Rightarrow> js_error option \<times> json_object list \<times> bool"
where
  "add_products timestamp [] recs failed = (None, recs, failed)"
| "add_products timestamp (p # ps) recs failed =
     (case store_add (cached_record timestamp p) recs of
        Inl e \<Rightarrow>
          if e = DataError then (Some DataError, recs, failed)
          else add_products timestamp ps recs True
      | Inr recs' \<Rightarrow> add_products timestamp ps recs' failed)"

definition products_meta :: "int \<Rightarrow> json list \<Rightarrow> json" where
  "products_meta timestamp products =
     JObj [(lit ''timestamp'', JNum timestamp),
           (lit ''count'', JNum (int (length products))),
           (lit ''hash'', JStr (generateHash (JArr products)))]"

definition ProductCache_set :: "int \<Rightarrow> json list \<Rightarrow> cache_state \<Rightarrow> cache_state" where
  "ProductCache_set now products s =
     (if \<not> idb_available s then s
      else
        (case add_products now products [] False of
           (thrown, recs, failed) \<Rightarrow>
             let s' = s\<lparr>products_store := (if failed then products_store s else recs)\<rparr>
             in (case thrown of
                   Some e \<Rightarrow> s'
                 | None \<Rightarrow>
                     s'\<lparr>localStorage :=
                          (localStorage s)(PRODUCTS_CACHE_KEY \<mapsto>
                             JSON_stringify (products_meta now products))\<rparr>)))"

definition ProductCache_clear :: "cache_state \<Rightarrow> cache_state" where
  "ProductCache_clear s =
     (if \<not> idb_available s then s
      else s\<lparr>products_store := [],
             localStorage := (localStorage s)(PRODUCTS_CACHE_KEY := None)\<rparr>)"

text \<open>\<open>const { _cached_at, _hash, ...product } = p\<close>\<close>

definition strip_meta :: "json_object \<Rightarrow> json" where
  "strip_meta p = JObj (obj_remove (lit ''_hash'') (obj_remove (lit ''_cached_at'') p))"

text \<open>The first part of \<open>get\<close>, up to the expiry check of the collection metadata.\<close>

datatype meta_check = NoMeta | MetaError js_error | MetaExpired | MetaFresh

definition ProductCache_check_meta :: "int \<Rightarrow> cache_state \<Rightarrow> meta_check" where
  "ProductCache_check_meta now s =
     (case localStorage s PRODUCTS_CACHE_KEY of
        None \<Rightarrow> NoMeta
      | Some meta \<Rightarrow>
          if meta = [] then NoMeta
          else
            (case JSON_parse meta of
               Inl e \<Rightarrow> MetaError e
             | Inr v \<Rightarrow>
                 (case get_prop v (lit ''timestamp'') of
                    Inl e \<Rightarrow> MetaError e
                  | Inr timestamp \<Rightarrow>
                      if older_than_window now timestamp then MetaExpired else MetaFresh)))"

text \<open>The second part of \<open>get\<close>: \<open>initDB\<close>, \<open>getAll\<close>, and the metadata stripped from every
  record.\<close>

definition ProductCache_read_all :: "cache_state \<Rightarrow> json" where
  "ProductCache_read_all s =
     (if \<not> idb_available s then JNull
      else
        (let products = map strip_meta (products_store s)
         in if length products > 0 then JArr products else JNull))"

definition ProductCache_get :: "int \<Rightarrow> cache_state \<Rightarrow> json \<times> cache_state" where
  "ProductCache_get now s =
     (case ProductCache_check_meta now s of
        NoMeta \<Rightarrow> (JNull, s)
      | MetaError e \<Rightarrow> (JNull, s)
      | MetaExpired \<Rightarrow> (JNull, ProductCache_clear s)
      | MetaFresh \<Rightarrow> (ProductCache_read_all s, s))"

text \<open>\<open>getById(id)\<close>; the identifier is a number, \<open>None\<close> is NaN (which is not a valid
  key: \<open>store.get\<close> throws).\<close>

definition ProductCache_getById :: "int \<Rightarrow> int option \<Rightarrow> cache_state \<Rightarrow> json \<times> cache_state" where
  "ProductCache_getById now ident s =
     (if \<not> idb_available s then (JNull, s)
      else
        (case ident of
           None \<Rightarrow> (JNull, s)
         | Some n \<Rightarrow>
             (case store_get (NumKey n) (products_store s) of
                None \<Rightarrow> (JNull, s)
              | Some product \<Rightarrow>
                  if older_than_window now (obj_get product (lit ''_cached_at'')) then (JNull, s)
                  else (strip_meta product, s))))"

definition ProductCache_isExpired :: "int \<Rightarrow> cache_state \<Rightarrow> js_error + bool" where
  "ProductCache_isExpired now s =
     (case localStorage s PRODUCTS_CACHE_KEY of
        None \<Rightarrow> Inr True
      | Some meta \<Rightarrow>
          if meta = [] then Inr True
          else
            (case JSON_parse meta of
               Inl e \<Rightarrow> Inl e
             | Inr v \<Rightarrow>
                 (case get_prop v (lit ''timestamp'') of
                    Inl e \<Rightarrow> Inl e
                  | Inr timestamp \<Rightarrow> Inr (older_than_window now timestamp))))"

section \<open>UserCache\<close>

definition user_blob :: "int \<Rightarrow> json \<Rightarrow> json" where
  "user_blob timestamp user =
     JObj [(lit ''data'', user),
           (lit ''timestamp'', JNum timestamp),
           (lit ''hash'', JStr (generateHash user)),
           (lit ''_version'', JNum DB_VERSION)]"

definition UserCache_set :: "int \<Rightarrow> json \<Rightarrow> cache_state \<Rightarrow> cache_state" where
  "UserCache_set now user s =
     (case btoa (JSON_stringify (user_blob now user)) of
        Inl e \<Rightarrow> s
      | Inr encoded \<Rightarrow> s\<lparr>localStorage := (localStorage s)(USER_CACHE_KEY \<mapsto> encoded)\<rparr>)"

definition UserCache_clear :: "cache_state \<Rightarrow> cache_state" where
  "UserCache_clear s = s\<lparr>localStorage := (localStorage s)(USER_CACHE_KEY := None)\<rparr>"

text \<open>\<open>JSON.parse(atob(encoded))\<close>\<close>

definition decode_blob :: "jstring \<Rightarrow> js_error + json" where
  "decode_blob encoded = (case atob encoded of Inl e \<Rightarrow> Inl e | Inr text \<Rightarrow> JSON_parse text)"

text \<open>In \<open>get\<close>, \<open>generateHash(cacheData.data)\<close> throws when there is no \<open>data\<close>
  property: \<open>JSON.stringify(undefined)\<close> is \<open>undefined\<close>, which has no \<open>length\<close>.\<close>

definition UserCache_get :: "int \<Rightarrow> cache_state \<Rightarrow> json \<times> cache_state" where
  "UserCache_get now s =
     (case localStorage s USER_CACHE_KEY of
        None \<Rightarrow> (JNull, s)
      | Some encoded \<Rightarrow>
          if encoded = [] then (JNull, s)
          else
            (case decode_blob encoded of
               Inl e \<Rightarrow> (JNull, UserCache_clear s)
             | Inr cacheData \<Rightarrow>
                 (case get_prop cacheData (lit ''timestamp'') of
                    Inl e \<Rightarrow> (JNull, UserCache_clear s)
                  | Inr timestamp \<Rightarrow>
                      if older_than_window now timestamp then (JNull, UserCache_clear s)
                      else
                        (case get_prop_opt cacheData (lit ''data'') of
                           None \<Rightarrow> (JNull, UserCache_clear s)
                         | Some d \<Rightarrow>
                             if get_prop_opt cacheData (lit ''hash'') \<noteq> Some (JStr (generateHash d))
                             then (JNull, UserCache_clear s)
                             else (d, s)))))"

definition UserCache_isExpired :: "int \<Rightarrow> cache_state \<Rightarrow> bool" where
  "UserCache_isExpired now s =
     (case localStorage s USER_CACHE_KEY of
        None \<Rightarrow> True
      | Some encoded \<Rightarrow>
          if encoded = [] then True
          else
            (case decode_blob encoded of
               Inl e \<Rightarrow> True
             | Inr cacheData \<Rightarrow>
                 (case get_prop cacheData (lit ''timestamp'') of
                    Inl e \<Rightarrow> True
                  | Inr timestamp \<Rightarrow> older_than_window now timestamp)))"

section \<open>Invalidation and the API wrappers\<close>

text \<open>
  \<open>ProductCache.clear\<close> is an async function: a call returns a promise at once, and the
  body after \<open>await initDB()\<close> runs when the open request of IndexedDB has succeeded,
  in a later turn of the event loop. A caller that does not await the promise goes on
  with the operation still pending. The requests of pending operations are served in the
  order in which they were made.
\<close>

datatype task = ClearProducts

record runtime =
  storage :: cache_state
  pending :: "task list"

definition run_task :: "task \<Rightarrow> cache_state \<Rightarrow> cache_state" where
  "run_task t s = (case t of ClearProducts \<Rightarrow> ProductCache_clear s)"

text \<open>The stores once every pending operation has run.\<close>

definition settle :: "runtime \<Rightarrow> cache_state" where
  "settle rt = foldl (\<lambda>s t. run_task t s) (storage rt) (pending rt)"

datatype scope = Products | User | All

text \<open>\<open>invalidateCache\<close> is not async and has no return statement: it starts
  \<open>ProductCache.clear()\<close>, drops the promise and returns \<open>undefined\<close>.
  \<open>UserCache.clear()\<close> is synchronous.\<close>

definition invalidateCache :: "scope option \<Rightarrow> runtime \<Rightarrow> runtime" where
  "invalidateCache type rt =
     (if type = None \<or> type = Some All then
        (let rt1 = rt\<lparr>pending := pending rt @ [ClearProducts]\<rparr>
         in rt1\<lparr>storage := UserCache_clear (storage rt1)\<rparr>)
      else if type = Some Products then rt\<lparr>pending := pending rt @ [ClearProducts]\<rparr>
      else if type = Some User then rt\<lparr>storage := UserCache_clear (storage rt)\<rparr>
      else rt)"

text \<open>\<open>await ProductCache.get()\<close> while operations are pending: the metadata is read at
  the call; the stores are read after the operations that were started before.\<close>

definition await_ProductCache_get :: "int \<Rightarrow> runtime \<Rightarrow> json \<times> runtime" where
  "await_ProductCache_get now rt =
     (case ProductCache_check_meta now (storage rt) of
        NoMeta \<Rightarrow> (JNull, rt)
      | MetaError e \<Rightarrow> (JNull, rt)
      | MetaExpired \<Rightarrow> (JNull, \<lparr>storage = ProductCache_clear (settle rt), pending = []\<rparr>)
      | MetaFresh \<Rightarrow> (ProductCache_read_all (settle rt), \<lparr>storage = settle rt, pending = []\<rparr>))"

definition truthy_opt :: "json option \<Rightarrow> bool" where
  "truthy_opt v = (case v of None \<Rightarrow> False | Some x \<Rightarrow> truthy x)"

text \<open>
  The wrappers are called with no cache operation pending. \<open>reply\<close> is what the request
  to the backend gives: the parsed body, or the error it throws.
\<close>

definition apiCheckout :: "js_error + json \<Rightarrow> cache_state \<Rightarrow> (js_error + json) \<times> runtime" where
  "apiCheckout reply s =
     (case reply of
        Inl e \<Rightarrow> (Inl e, \<lparr>storage = s, pending = []\<rparr>)
      | Inr response \<Rightarrow>
          if truthy_opt (get_prop_opt response (lit ''order''))
             \<or> truthy_opt (get_prop_opt response (lit ''success''))
          then (Inr response, invalidateCache (Some Products) \<lparr>storage = s, pending = []\<rparr>)
          else (Inr response, \<lparr>storage = s, pending = []\<rparr>))"

definition apiLogout :: "js_error + json \<Rightarrow> cache_state \<Rightarrow> (js_error + json) \<times> runtime" where
  "apiLogout reply s =
     (case reply of
        Inl e \<Rightarrow> (Inl e, \<lparr>storage = s, pending = []\<rparr>)
      | Inr response \<Rightarrow> (Inr response, invalidateCache (Some All) \<lparr>storage = s, pending = []\<rparr>))"

text \<open>\<open>productId\<close> is a number or a string; \<open>Number(productId)\<close> is its coercion.\<close>

definition apiGetProduct ::
  "int \<Rightarrow> json \<Rightarrow> js_error + json \<Rightarrow> cache_state \<Rightarrow> (js_error + json) \<times> cache_state"
where
  "apiGetProduct now productId reply s =
     (case ProductCache_getById now (to_number productId) s of
        (cached, s') \<Rightarrow>
          if truthy cached then (Inr (JObj [(lit ''product'', cached)]), s')
          else (reply, s'))"

section \<open>Predicates of the specification\<close>

text \<open>What may follow a value inside a JSON text: nothing, a comma, or a closing bracket.\<close>

definition delimited :: "jstring \<Rightarrow> bool" where
  "delimited rest = (case rest of [] \<Rightarrow> True | c # cs \<Rightarrow> c = 44 \<or> c = 93 \<or> c = 125)"

definition no_digit_ahead :: "jstring \<Rightarrow> bool" where
  "no_digit_ahead rest = (case rest of [] \<Rightarrow> True | c # cs \<Rightarrow> \<not> is_digit c)"

definition value_start :: "nat \<Rightarrow> bool" where
  "value_start c =
     (c = 110 \<or> c = 116 \<or> c = 102 \<or> c = 45 \<or> c = 34 \<or> c = 91 \<or> c = 123 \<or> is_digit c)"

text \<open>A JavaScript object has every property name once.\<close>

fun wf_json :: "json \<Rightarrow> bool"
  and wf_elems :: "json list \<Rightarrow> bool"
  and wf_members :: "(jstring \<times> json) list \<Rightarrow> bool"
where
  "wf_json JNull = True"
| "wf_json (JBool b) = True"
| "wf_json (JNum i) = True"
| "wf_json (JStr s) = True"
| "wf_json (JArr xs) = wf_elems xs"
| "wf_json (JObj kvs) = (distinct (map fst kvs) \<and> wf_members kvs)"
| "wf_elems [] = True"
| "wf_elems (x # xs) = (wf_json x \<and> wf_elems xs)"
| "wf_members [] = True"
| "wf_members ((k, v) # kvs) = (wf_json v \<and> wf_members kvs)"

text \<open>Text that \<open>btoa\<close> accepts, and values whose strings and property names are such
  text.\<close>

definition latin1 :: "jstring \<Rightarrow> bool" where
  "latin1 s = list_all (\<lambda>c. c \<le> 255) s"

fun latin1_json :: "json \<Rightarrow> bool"
  and latin1_elems :: "json list \<Rightarrow> bool"
  and latin1_members :: "(jstring \<times> json) list \<Rightarrow> bool"
where
  "latin1_json JNull = True"
| "latin1_json (JBool b) = True"
| "latin1_json (JNum i) = True"
| "latin1_json (JStr s) = latin1 s"
| "latin1_json (JArr xs) = latin1_elems xs"
| "latin1_json (JObj kvs) = latin1_members kvs"
| "latin1_elems [] = True"
| "latin1_elems (x # xs) = (latin1_json x \<and> latin1_elems xs)"
| "latin1_members [] = True"
| "latin1_members ((k, v) # kvs) = (latin1 k \<and> latin1_json v \<and> latin1_members kvs)"

text \<open>The fields of the collection metadata and of the user blob as a reader finds them
  in \<open>localStorage\<close>.\<close>

definition products_meta_field :: "cache_state \<Rightarrow> jstring \<Rightarrow> json option" where
  "products_meta_field s k =
     (case localStorage s PRODUCTS_CACHE_KEY of
        None \<Rightarrow> None
      | Some meta \<Rightarrow>
          (case JSON_parse meta of
             Inl e \<Rightarrow> None
           | Inr v \<Rightarrow> get_prop_opt v k))"

definition user_blob_field :: "cache_state \<Rightarrow> jstring \<Rightarrow> json option" where
  "user_blob_field s k =
     (case localStorage s USER_CACHE_KEY of
        None \<Rightarrow> None
      | Some encoded \<Rightarrow>
          (case decode_blob encoded of
             Inl e \<Rightarrow> None
           | Inr v \<Rightarrow> get_prop_opt v k))"

text \<open>The blob that \<open>UserCache.set\<close> wrote for \<open>user\<close>, with its payload replaced by
  \<open>d\<close> and its hash left as it was.\<close>

definition tampered_blob :: "int \<Rightarrow> json \<Rightarrow> json \<Rightarrow> json" where
  "tampered_blob timestamp user d =
     JObj [(lit ''data'', d),
           (lit ''timestamp'', JNum timestamp),
           (lit ''hash'', JStr (generateHash user)),
           (lit ''_version'', JNum DB_VERSION)]"

text \<open>A product record as the backend sends it: an object with a numeric \<open>id\<close> and
  without the two property names that the cache uses for its own metadata.\<close>

definition product_id :: "json \<Rightarrow> int option" where
  "product_id p =
     (case p of
        JObj kvs \<Rightarrow> (case obj_get kvs (lit ''id'') of Some (JNum n) \<Rightarrow> Some n | _ \<Rightarrow> None)
      | _ \<Rightarrow> None)"

definition plain_product :: "json \<Rightarrow> bool" where
  "plain_product p =
     (product_id p \<noteq> None \<and>
      (case p of
         JObj kvs \<Rightarrow> obj_get kvs (lit ''_cached_at'') = None \<and> obj_get kvs (lit ''_hash'') = None
       | _ \<Rightarrow> False))"

text \<open>The records of the store with their \<open>_hash\<close> properties overwritten by \<open>h\<close>.\<close>

definition with_hashes :: "(json_object \<Rightarrow> json) \<Rightarrow> cache_state \<Rightarrow> cache_state" where
  "with_hashes h s =
     s\<lparr>products_store := map (\<lambda>r. obj_set (lit ''_hash'') (h r) r) (products_store s)\<rparr>"

section \<open>Example states\<close>

definition empty_cache :: cache_state where
  "empty_cache = \<lparr>localStorage = Map.empty, products_store = [], idb_available = True\<rparr>"

definition rose :: json where
  "rose = JObj [(lit ''id'', JNum 1), (lit ''name'', JStr (lit ''Rose''))]"

definition oud :: json where
  "oud = JObj [(lit ''id'', JNum 2), (lit ''name'', JStr (lit ''Oud''))]"

text \<open>Fresh metadata that counts five records over a store that holds one.\<close>

definition torn_cache :: cache_state where
  "torn_cache =
     \<lparr>localStorage =
        [PRODUCTS_CACHE_KEY \<mapsto>
           JSON_stringify
             (JObj [(lit ''timestamp'', JNum 1000), (lit ''count'', JNum 5),
                    (lit ''hash'', JStr (lit ''0''))])],
      products_store = [cached_record 1000 rose],
      idb_available = True\<rparr>"

text \<open>Metadata that is not JSON.\<close>

definition garbled_meta_cache :: cache_state where
  "garbled_meta_cache = empty_cache\<lparr>localStorage := [PRODUCTS_CACHE_KEY \<mapsto> lit ''{'']\<rparr>"

definition garbled_user_cache :: cache_state where
  "garbled_user_cache = empty_cache\<lparr>localStorage := [USER_CACHE_KEY \<mapsto> lit ''{'']\<rparr>"


text \<open>A product that has a property named \<open>_hash\<close> of its own.\<close>

definition labelled :: json where
  "labelled = JObj [(lit ''id'', JNum 1), (lit ''_hash'', JStr (lit ''x''))]"

text \<open>The body of a successful checkout.\<close>

definition order_reply :: json where
  "order_reply = JObj [(lit ''order'', JObj [(lit ''id'', JNum 7)])]"

text \<open>A hash that belongs to no record.\<close>

definition bogus :: "json_object \<Rightarrow> json" where
  "bogus r = JStr (lit ''bogus'')"

section \<open>Numbers and strings survive JSON\<close>

lemma digits_not_Nil: "digits n \<noteq> []"
  by (induction n rule: digits.induct) (subst digits.simps, simp)

lemma digits_all_digit: "list_all is_digit (digits n)"
proof (induction n rule: digits.induct)
  case (1 n)
  show ?case
  proof (cases "n < 10")
    case True
    then show ?thesis by (subst digits.simps) (simp add: is_digit_def)
  next
    case False
    have "n mod 10 < 10" by simp
    then have "is_digit (48 + n mod 10)" unfolding is_digit_def by linarith
    with False 1 show ?thesis by (subst digits.simps) simp
  qed
qed

lemma take_digits_append:
  "list_all is_digit ds \<Longrightarrow>
   take_digits acc (ds @ rest) = take_digits (foldl (\<lambda>a c. a * 10 + (c - 48)) acc ds) rest"
  by (induction ds arbitrary: acc) simp_all

lemma foldl_digits:
  "foldl (\<lambda>a c. a * 10 + (c - 48)) acc (digits n) = acc * 10 ^ length (digits n) + n"
proof (induction n arbitrary: acc rule: digits.induct)
  case (1 n)
  show ?case
  proof (cases "n < 10")
    case True
    then show ?thesis by (subst (1 2) digits.simps) simp
  next
    case False
    have "foldl (\<lambda>a c. a * 10 + (c - 48)) acc (digits n)
          = (acc * 10 ^ length (digits (n div 10)) + n div 10) * 10 + n mod 10"
      using False 1 by (subst digits.simps) simp
    also have "\<dots> = acc * 10 ^ length (digits n) + n"
      using False by (subst (2) digits.simps) (simp add: algebra_simps)
    finally show ?thesis .
  qed
qed

lemma take_digits_stop: "no_digit_ahead rest \<Longrightarrow> take_digits acc rest = (acc, rest)"
  by (cases rest) (simp_all add: no_digit_ahead_def)

lemma take_digits_digits:
  "no_digit_ahead rest \<Longrightarrow> take_digits 0 (digits n @ rest) = (n, rest)"
  by (simp add: take_digits_append digits_all_digit foldl_digits take_digits_stop)

lemma hd_digits_zero: "hd (digits n) = 48 \<longleftrightarrow> n = 0"
proof (induction n rule: digits.induct)
  case (1 n)
  show ?case
  proof (cases "n < 10")
    case True
    then show ?thesis by (subst digits.simps) simp
  next
    case False
    then have "n div 10 \<noteq> 0" by simp
    with False 1 show ?thesis
      by (subst digits.simps) (simp add: digits_not_Nil)
  qed
qed

lemma delimited_no_digit: "delimited rest \<Longrightarrow> no_digit_ahead rest"
  by (auto simp: delimited_def no_digit_ahead_def is_digit_def split: list.splits)

lemma integer_only_delimited: "delimited rest \<Longrightarrow> integer_only (n, rest) = Some (n, rest)"
  by (auto simp: delimited_def integer_only_def split: list.splits)

lemma digits_0: "digits 0 = [48]"
  by (subst digits.simps) simp

lemma parse_nat_digits:
  assumes "delimited rest"
  shows "parse_nat (digits n @ rest) = Some (n, rest)"
proof (cases "n = 0")
  case True
  with assms show ?thesis
    by (simp add: digits_0 parse_nat_def integer_only_delimited)
next
  case False
  obtain d ds where d: "digits n = d # ds"
    using digits_not_Nil [of n] by (cases "digits n") auto
  have "d \<noteq> 48" using hd_digits_zero [of n] False d by simp
  moreover have "is_digit d" using digits_all_digit [of n] d by simp
  moreover have "take_digits 0 (d # ds @ rest) = (n, rest)"
    using take_digits_digits [OF delimited_no_digit [OF assms], of n] d by simp
  ultimately show ?thesis
    using assms d by (simp add: parse_nat_def integer_only_delimited)
qed

lemma parse_number_text:
  assumes "delimited rest"
  shows "parse_number (number_text i @ rest) = Some (i, rest)"
proof (cases "i < 0")
  case True
  then show ?thesis
    using parse_nat_digits [OF assms, of "nat (- i)"]
    by (simp add: parse_number_def number_text_def)
next
  case False
  obtain d ds where d: "digits (nat i) = d # ds"
    using digits_not_Nil [of "nat i"] by (cases "digits (nat i)") auto
  have "is_digit d" using digits_all_digit [of "nat i"] d by simp
  then have "d \<noteq> 45" by (auto simp: is_digit_def)
  then show ?thesis
    using False parse_nat_digits [OF assms, of "nat i"] d
    by (simp add: parse_number_def number_text_def)
qed

lemma hex_value_digit: "d < 16 \<Longrightarrow> hex_value (hex_digit d) = Some d"
  by (auto simp: hex_value_def hex_digit_def)

lemma split16:
  "(c::nat) div 4096 mod 16 * 4096 + c div 256 mod 16 * 256 + c div 16 mod 16 * 16 + c mod 16
   = c mod 65536"
proof -
  have a: "c mod 65536 = c mod 4096 + 4096 * (c div 4096 mod 16)"
    using mod_mult2_eq [of c 4096 16] by simp
  have b: "c mod 4096 = c mod 256 + 256 * (c div 256 mod 16)"
    using mod_mult2_eq [of c 256 16] by simp
  have d: "c mod 256 = c mod 16 + 16 * (c div 16 mod 16)"
    using mod_mult2_eq [of c 16 16] by simp
  show ?thesis using a b d by simp
qed

lemma hex4_escape:
  assumes "c < 65536"
  shows "hex4 (hex_digit (c div 4096 mod 16)) (hex_digit (c div 256 mod 16))
              (hex_digit (c div 16 mod 16)) (hex_digit (c mod 16)) = Some c"
  using split16 [of c] assms by (simp add: hex4_def hex_value_digit)

lemma parse_chars_unicode_escape:
  "c < 65536 \<Longrightarrow> parse_chars (unicode_escape c @ r) = cons_unit c (parse_chars r)"
  using hex4_escape [of c] by (simp add: unicode_escape_def)

lemma parse_chars_end: "parse_chars (34 # rest) = Some ([], rest)"
  by simp

lemma parse_chars_literal:
  "32 \<le> c \<Longrightarrow> c \<noteq> 34 \<Longrightarrow> c \<noteq> 92 \<Longrightarrow> parse_chars (c # r) = cons_unit c (parse_chars r)"
  by simp

lemma parse_chars_escape_unit:
  "parse_chars (escape_unit c @ r) = cons_unit c (parse_chars r)"
proof (cases "c < 32")
  case True
  then have "c < 65536" by simp
  then show ?thesis
    using True parse_chars_unicode_escape [of c r]
    by (auto simp: escape_unit_def unescape_def)
next
  case False
  then show ?thesis by (auto simp: escape_unit_def unescape_def)
qed

lemma surrogate_literal:
  "high_surrogate c \<or> low_surrogate c \<Longrightarrow> parse_chars (c # r) = cons_unit c (parse_chars r)"
  by (auto simp: high_surrogate_def low_surrogate_def)

lemma parse_chars_quote_units:
  "parse_chars (quote_units s @ 34 # rest) = Some (s, rest)"
proof (induction s rule: quote_units.induct)
  case 1
  show ?case by simp
next
  case (2 c)
  have "high_surrogate c \<or> low_surrogate c \<Longrightarrow> c < 65536"
    by (auto simp: high_surrogate_def low_surrogate_def)
  then show ?case
    by (auto simp: parse_chars_unicode_escape parse_chars_escape_unit parse_chars_end
             cons_unit_def simp del: parse_chars.simps)
next
  case (3 c d cs)
  have lt: "high_surrogate c \<or> low_surrogate c \<Longrightarrow> c < 65536"
    by (auto simp: high_surrogate_def low_surrogate_def)
  show ?case
  proof (cases "high_surrogate c")
    case True
    note hc = this
    show ?thesis
    proof (cases "low_surrogate d")
      case True
      with hc 3 show ?thesis
        by (simp add: surrogate_literal cons_unit_def del: parse_chars.simps)
    next
      case False
      with hc 3 lt show ?thesis
        by (simp add: parse_chars_unicode_escape cons_unit_def del: parse_chars.simps)
    qed
  next
    case False
    with 3 lt show ?thesis
      by (auto simp: parse_chars_unicode_escape parse_chars_escape_unit cons_unit_def
               simp del: parse_chars.simps)
  qed
qed

lemma parse_chars_quote:
  "quote s @ rest = 34 # quote_units s @ 34 # rest"
  by (simp add: quote_def)

section \<open>Values survive JSON\<close>

lemma skip_ws_Cons: "\<not> is_ws c \<Longrightarrow> skip_ws (c # cs) = c # cs"
  by (simp add: skip_ws_def)

lemma value_start_not_ws: "value_start c \<Longrightarrow> \<not> is_ws c"
  by (auto simp: value_start_def is_ws_def is_digit_def)

lemma number_text_start: "\<exists>c cs. number_text i = c # cs \<and> (c = 45 \<or> is_digit c)"
proof (cases "i < 0")
  case True
  then show ?thesis by (simp add: number_text_def)
next
  case False
  obtain d ds where d: "digits (nat i) = d # ds"
    using digits_not_Nil [of "nat i"] by (cases "digits (nat i)") auto
  have "is_digit d" using digits_all_digit [of "nat i"] d by simp
  with False d show ?thesis by (simp add: number_text_def)
qed

lemma stringify_start: "\<exists>c cs. JSON_stringify v = c # cs \<and> value_start c"
proof (cases v)
  case (JNum i)
  then show ?thesis using number_text_start [of i] by (auto simp: value_start_def)
qed (auto simp: value_start_def lit_def quote_def)

lemma stringify_elems_start:
  "xs \<noteq> [] \<Longrightarrow> \<exists>c cs. stringify_elems xs = c # cs \<and> value_start c"
proof (cases xs)
  case Nil
  then show "xs \<noteq> [] \<Longrightarrow> ?thesis" by simp
next
  case (Cons x ys)
  obtain c cs where "JSON_stringify x = c # cs" "value_start c"
    using stringify_start by blast
  with Cons show ?thesis by (cases ys) auto
qed

lemma stringify_members_start:
  "kvs \<noteq> [] \<Longrightarrow> \<exists>cs. stringify_members kvs = 34 # cs"
proof (cases kvs)
  case Nil
  then show "kvs \<noteq> [] \<Longrightarrow> ?thesis" by simp
next
  case (Cons kv ys)
  then show ?thesis by (cases kv; cases ys) (auto simp: quote_def)
qed

lemma obj_set_fresh: "k \<notin> fst ` set ob \<Longrightarrow> obj_set k v ob = ob @ [(k, v)]"
  by (induction ob) auto

lemma foldl_obj_set_distinct:
  "distinct (map fst kvs) \<Longrightarrow> fst ` set kvs \<inter> fst ` set acc = {} \<Longrightarrow>
   foldl (\<lambda>ob kv. obj_set (fst kv) (snd kv) ob) acc kvs = acc @ kvs"
proof (induction kvs arbitrary: acc)
  case Nil
  show ?case by simp
next
  case (Cons kv kvs)
  have fresh: "fst kv \<notin> fst ` set acc" using Cons.prems(2) by auto
  have "fst ` set kvs \<inter> fst ` set (acc @ [kv]) = {}"
    using Cons.prems by auto
  with Cons have "foldl (\<lambda>ob kv. obj_set (fst kv) (snd kv) ob) (acc @ [kv]) kvs = (acc @ [kv]) @ kvs"
    by simp
  then show ?case using fresh by (simp add: obj_set_fresh)
qed

lemma object_of_members_distinct:
  "distinct (map fst kvs) \<Longrightarrow> object_of_members kvs = JObj kvs"
  by (simp add: object_of_members_def foldl_obj_set_distinct)

lemma parse_value_null: "parse_value (Suc m) (lit ''null'' @ rest) = Some (JNull, rest)"
  by (simp add: lit_def skip_ws_def is_ws_def starts_with_def)

lemma parse_value_true: "parse_value (Suc m) (lit ''true'' @ rest) = Some (JBool True, rest)"
  by (simp add: lit_def skip_ws_def is_ws_def starts_with_def)

lemma parse_value_false: "parse_value (Suc m) (lit ''false'' @ rest) = Some (JBool False, rest)"
  by (simp add: lit_def skip_ws_def is_ws_def starts_with_def)

lemma parse_value_number:
  assumes "delimited rest"
  shows "parse_value (Suc m) (number_text i @ rest) = Some (JNum i, rest)"
proof -
  obtain c cs where c: "number_text i = c # cs" "c = 45 \<or> is_digit c"
    using number_text_start by blast
  then have nows: "\<not> is_ws c" and ne: "c \<noteq> 123" "c \<noteq> 91" "c \<noteq> 34" "c \<noteq> 110" "c \<noteq> 116" "c \<noteq> 102"
    by (auto simp: is_ws_def is_digit_def)
  have "parse_number (c # cs @ rest) = Some (i, rest)"
    using parse_number_text [OF assms, of i] c by simp
  then show ?thesis
    using c nows ne by (simp add: skip_ws_Cons starts_with_def lit_def)
qed

lemma parse_value_string: "parse_value (Suc m) (quote s @ rest) = Some (JStr s, rest)"
  by (simp add: quote_def skip_ws_def is_ws_def parse_chars_quote_units del: parse_chars.simps)

lemma parse_value_array_empty: "parse_value (Suc m) (91 # 93 # rest) = Some (JArr [], rest)"
  by (simp add: skip_ws_def is_ws_def)

lemma parse_value_array:
  "value_start c \<Longrightarrow>
   parse_value (Suc m) (91 # c # cs) = map_option (\<lambda>p. (JArr (fst p), snd p)) (parse_elems m (c # cs))"
  using value_start_not_ws [of c]
  by (auto simp: skip_ws_Cons value_start_def is_digit_def) (simp_all add: skip_ws_def is_ws_def)

lemma parse_value_object_empty: "parse_value (Suc m) (123 # 125 # rest) = Some (JObj [], rest)"
  by (simp add: skip_ws_def is_ws_def)

lemma parse_value_object:
  "parse_value (Suc m) (123 # 34 # cs) =
   map_option (\<lambda>p. (object_of_members (fst p), snd p)) (parse_members m (34 # cs))"
  by (simp add: skip_ws_def is_ws_def)

lemma parse_elems_more:
  "parse_value m s = Some (v, 44 # r) \<Longrightarrow>
   parse_elems (Suc m) s = map_option (\<lambda>p. (v # fst p, snd p)) (parse_elems m r)"
  by (simp add: skip_ws_def is_ws_def)

lemma parse_elems_last:
  "parse_value m s = Some (v, 93 # r) \<Longrightarrow> parse_elems (Suc m) s = Some ([v], r)"
  by (simp add: skip_ws_def is_ws_def)

lemma parse_members_more:
  "parse_value m s = Some (v, 44 # r) \<Longrightarrow>
   parse_members (Suc m) (quote k @ 58 # s) =
   map_option (\<lambda>p. ((k, v) # fst p, snd p)) (parse_members m r)"
  by (simp add: quote_def skip_ws_def is_ws_def parse_chars_quote_units del: parse_chars.simps)

lemma parse_members_last:
  "parse_value m s = Some (v, 125 # r) \<Longrightarrow>
   parse_members (Suc m) (quote k @ 58 # s) = Some ([(k, v)], r)"
  by (simp add: quote_def skip_ws_def is_ws_def parse_chars_quote_units del: parse_chars.simps)

lemma delimited_simps:
  "delimited []" "delimited (44 # r)" "delimited (93 # r)" "delimited (125 # r)"
  by (simp_all add: delimited_def)

lemma parse_roundtrip:
  "wf_json v \<Longrightarrow> length (JSON_stringify v) \<le> n \<Longrightarrow> delimited rest \<Longrightarrow>
     parse_value n (JSON_stringify v @ rest) = Some (v, rest)"
  "wf_elems xs \<Longrightarrow> xs \<noteq> [] \<Longrightarrow> length (stringify_elems xs) < n \<Longrightarrow>
     parse_elems n (stringify_elems xs @ 93 # rest) = Some (xs, rest)"
  "wf_members kvs \<Longrightarrow> kvs \<noteq> [] \<Longrightarrow> length (stringify_members kvs) < n \<Longrightarrow>
     parse_members n (stringify_members kvs @ 125 # rest) = Some (kvs, rest)"
proof (induction v and xs and kvs arbitrary: n rest and n rest and n rest
       rule: JSON_stringify_stringify_elems_stringify_members.induct)
  case 1
  then obtain m where "n = Suc m" by (cases n) (auto simp: lit_def)
  then show ?case by (simp add: parse_value_null del: parse_value.simps)
next
  case (2 b)
  then obtain m where "n = Suc m" by (cases n) (auto simp: lit_def split: if_splits)
  then show ?case
    by (simp add: parse_value_true parse_value_false del: parse_value.simps)
next
  case (3 i)
  obtain c cs where "number_text i = c # cs" using number_text_start by blast
  with 3 obtain m where "n = Suc m" by (cases n) auto
  with 3 show ?case by (simp add: parse_value_number del: parse_value.simps)
next
  case (4 s)
  then obtain m where "n = Suc m" by (cases n) (auto simp: quote_def)
  then show ?case by (simp add: parse_value_string del: parse_value.simps)
next
  case (5 xs)
  then obtain m where m: "n = Suc m" by (cases n) auto
  show ?case
  proof (cases "xs = []")
    case True
    with m show ?thesis by (simp add: parse_value_array_empty del: parse_value.simps)
  next
    case False
    obtain c cs where c: "stringify_elems xs = c # cs" "value_start c"
      using stringify_elems_start [OF False] by blast
    have "length (stringify_elems xs) < m" using 5(3) m by simp
    with 5(1) [of m rest] 5(2) False
    have "parse_elems m (stringify_elems xs @ 93 # rest) = Some (xs, rest)" by simp
    with c m show ?thesis
      by (simp add: parse_value_array del: parse_value.simps)
  qed
next
  case (6 kvs)
  then obtain m where m: "n = Suc m" by (cases n) auto
  show ?case
  proof (cases "kvs = []")
    case True
    with m show ?thesis by (simp add: parse_value_object_empty del: parse_value.simps)
  next
    case False
    obtain cs where c: "stringify_members kvs = 34 # cs"
      using stringify_members_start [OF False] by blast
    have "length (stringify_members kvs) < m" using 6(3) m by simp
    with 6(1) [of m rest] 6(2) False
    have "parse_members m (stringify_members kvs @ 125 # rest) = Some (kvs, rest)" by simp
    with c m 6(2) show ?thesis
      by (simp add: parse_value_object object_of_members_distinct del: parse_value.simps)
  qed
next
  case 7
  then show ?case by simp
next
  case (8 x)
  then obtain m where m: "n = Suc m" by (cases n) auto
  have "parse_value m (JSON_stringify x @ 93 # rest) = Some (x, 93 # rest)"
    using 8 m by (simp add: delimited_simps del: parse_value.simps)
  then show ?case using m by (simp add: parse_elems_last del: parse_elems.simps)
next
  case (9 x y ys)
  then obtain m where m: "n = Suc m" by (cases n) auto
  have "parse_value m (JSON_stringify x @ 44 # stringify_elems (y # ys) @ 93 # rest)
        = Some (x, 44 # stringify_elems (y # ys) @ 93 # rest)"
    using 9(1) [of m] 9(3,5) m by (simp add: delimited_simps del: parse_value.simps)
  moreover have "parse_elems m (stringify_elems (y # ys) @ 93 # rest) = Some (y # ys, rest)"
    using 9(2) [of m rest] 9(3,5) m by simp
  ultimately show ?case
    using m by (simp add: parse_elems_more del: parse_elems.simps parse_value.simps)
next
  case 10
  then show ?case by simp
next
  case (11 k v)
  then obtain m where m: "n = Suc m" by (cases n) auto
  have "parse_value m (JSON_stringify v @ 125 # rest) = Some (v, 125 # rest)"
    using 11 m by (simp add: delimited_simps del: parse_value.simps)
  then show ?case using m by (simp add: parse_members_last del: parse_members.simps)
next
  case (12 k v kv kvs)
  then obtain m where m: "n = Suc m" by (cases n) auto
  have "parse_value m (JSON_stringify v @ 44 # stringify_members (kv # kvs) @ 125 # rest)
        = Some (v, 44 # stringify_members (kv # kvs) @ 125 # rest)"
    using 12(1) [of m] 12(3,5) m by (simp add: delimited_simps del: parse_value.simps)
  moreover have "parse_members m (stringify_members (kv # kvs) @ 125 # rest) = Some (kv # kvs, rest)"
    using 12(2) [of m rest] 12(3,5) m by simp
  ultimately show ?case
    using m by (simp add: parse_members_more del: parse_members.simps parse_value.simps)
qed

lemma JSON_parse_stringify: "wf_json v \<Longrightarrow> JSON_parse (JSON_stringify v) = Inr v"
  using parse_roundtrip(1) [of v "Suc (length (JSON_stringify v))" "[]"]
  by (simp add: JSON_parse_def delimited_simps skip_ws_def del: parse_value.simps)

section \<open>Bytes survive base64\<close>

lemma b64_value_char: "n < 64 \<Longrightarrow> b64_value (b64_char n) = Some n"
  by (auto simp: b64_value_def b64_char_def)

lemma b64_char_not_pad: "n < 64 \<Longrightarrow> b64_char n \<noteq> 61"
  by (auto simp: b64_char_def)

lemma b64_char_not_ws: "n < 64 \<Longrightarrow> \<not> ascii_ws (b64_char n)"
  by (auto simp: b64_char_def ascii_ws_def)

lemma sextets_bound: "list_all (\<lambda>c. c \<le> 255) s \<Longrightarrow> list_all (\<lambda>n. n < 64) (sextets s)"
proof (induction s rule: sextets.induct)
  case (4 a b c r)
  have "a div 4 < 64" "a mod 4 * 16 + b div 16 < 64" "b mod 16 * 4 + c div 64 < 64" "c mod 64 < 64"
    using 4(2) by (simp_all, linarith+)
  with 4 show ?case by simp
qed (simp_all, linarith?)


lemma those_b64_value:
  "list_all (\<lambda>n. n < 64) xs \<Longrightarrow> those (map (b64_value \<circ> b64_char) xs) = Some xs"
  by (induction xs) (simp_all add: b64_value_char)

lemma filter_ws_b64:
  "list_all (\<lambda>n. n < 64) xs \<Longrightarrow> filter (\<lambda>c. \<not> ascii_ws c) (map b64_char xs) = map b64_char xs"
  by (induction xs) (simp_all add: b64_char_not_ws)

lemma strip_padding_Cons: "y \<noteq> 61 \<Longrightarrow> strip_padding (y # zs) = y # strip_padding zs"
proof (cases zs)
  case (Cons z ws)
  then show "y \<noteq> 61 \<Longrightarrow> ?thesis" by (cases ws) auto
qed simp

lemma strip_padding_chars:
  assumes "list_all (\<lambda>n. n < 64) xs" and "k \<le> 2"
  shows "strip_padding (map b64_char xs @ replicate k 61) = map b64_char xs"
  using assms(1)
proof (induction xs)
  case Nil
  have "k = 0 \<or> k = 1 \<or> k = 2" using assms(2) by linarith
  then show ?case by (auto simp: numeral_2_eq_2)
next
  case (Cons x xs)
  then show ?case by (simp add: strip_padding_Cons b64_char_not_pad)
qed

lemma length_sextets: "length (sextets s) = (length s * 4 + 2) div 3"
  by (induction s rule: sextets.induct) simp_all

lemma length_b64_encode: "length (b64_encode s) mod 4 = 0"
proof (induction s rule: sextets.induct)
  case (4 a b c r)
  then show ?case by (simp add: b64_encode_def)
qed (simp_all add: b64_encode_def numeral_2_eq_2)

lemma length_sextets_mod: "length (sextets s) mod 4 \<noteq> 1"
  by (induction s rule: sextets.induct) simp_all

lemma byte_div:
  "c \<le> 255 \<Longrightarrow> (c::nat) div 16 < 16" "c \<le> 255 \<Longrightarrow> (c::nat) div 64 < 4"
  by (simp_all add: less_mult_imp_div_less)

lemma pad_not_ws: "\<not> ascii_ws 61"
  by (simp add: ascii_ws_def)

lemma b64_decode_sextets: "list_all (\<lambda>c. c \<le> 255) s \<Longrightarrow> b64_decode (sextets s) = s"
proof (induction s rule: sextets.induct)
  case 1
  show ?case by simp
next
  case (2 a)
  have "a div 4 * 4 + a mod 4 * 16 div 16 = a" by simp
  then show ?case by simp
next
  case (3 a b)
  have "a div 4 * 4 + (a mod 4 * 16 + b div 16) div 16 = a"
  proof -
    have "b div 16 < 16" using 3 by (simp add: byte_div)
    then have "(a mod 4 * 16 + b div 16) div 16 = a mod 4" by simp
    then show ?thesis by simp
  qed
  moreover have "(a mod 4 * 16 + b div 16) mod 16 * 16 + b mod 16 * 4 div 4 = b"
  proof -
    have "b div 16 < 16" using 3 by (simp add: byte_div)
    then have "(a mod 4 * 16 + b div 16) mod 16 = b div 16" by simp
    then show ?thesis by simp
  qed
  ultimately show ?case by simp
next
  case (4 a b c r)
  have b16: "b div 16 < 16" and c64: "c div 64 < 4" using 4(2) by (simp_all add: byte_div)
  have e1: "a div 4 * 4 + (a mod 4 * 16 + b div 16) div 16 = a"
  proof -
    have "(a mod 4 * 16 + b div 16) div 16 = a mod 4" using b16 by simp
    then show ?thesis by simp
  qed
  have e2: "(a mod 4 * 16 + b div 16) mod 16 * 16 + (b mod 16 * 4 + c div 64) div 4 = b"
  proof -
    have "(a mod 4 * 16 + b div 16) mod 16 = b div 16" using b16 by simp
    moreover have "(b mod 16 * 4 + c div 64) div 4 = b mod 16" using c64 by simp
    ultimately show ?thesis by simp
  qed
  have e3: "(b mod 16 * 4 + c div 64) mod 4 * 64 + c mod 64 = c"
  proof -
    have "(b mod 16 * 4 + c div 64) mod 4 = c div 64" using c64 by simp
    then show ?thesis by simp
  qed
  show ?case using 4 e1 e2 e3 by simp
qed

lemma atob_b64_encode:
  assumes "list_all (\<lambda>c. c \<le> 255) s"
  shows "atob (b64_encode s) = Inr s"
proof -
  let ?k = "(3 - length s mod 3) mod 3"
  have six: "list_all (\<lambda>n. n < 64) (sextets s)" using assms by (rule sextets_bound)
  have k: "?k \<le> 2" by simp
  have f: "filter (\<lambda>c. \<not> ascii_ws c) (b64_encode s) = b64_encode s"
    by (simp add: b64_encode_def filter_ws_b64 [OF six] pad_not_ws)
  have st: "strip_padding (b64_encode s) = map b64_char (sextets s)"
    unfolding b64_encode_def by (rule strip_padding_chars [OF six k])
  show ?thesis
    unfolding atob_def f Let_def
    using length_b64_encode [of s] st length_sextets_mod [of s]
    by (simp add: those_b64_value [OF six] b64_decode_sextets [OF assms])
qed

lemma atob_btoa: "btoa s = Inr e \<Longrightarrow> atob e = Inr s"
  by (auto simp: btoa_def atob_b64_encode split: if_splits)

section \<open>Facts about the stores\<close>

lemma keys_differ [simp]:
  "USER_CACHE_KEY \<noteq> PRODUCTS_CACHE_KEY" "PRODUCTS_CACHE_KEY \<noteq> USER_CACHE_KEY"
  by (simp_all add: USER_CACHE_KEY_def PRODUCTS_CACHE_KEY_def lit_def)

lemma decode_blob_Nil: "decode_blob [] = Inl SyntaxError"
  by (simp add: decode_blob_def atob_def JSON_parse_def skip_ws_def)

lemma getById_keeps_state: "snd (ProductCache_getById now ident s) = s"
  by (simp add: ProductCache_getById_def split: option.splits)

lemma JSON_parse_Nil: "JSON_parse [] = Inl SyntaxError"
  by (simp add: JSON_parse_def skip_ws_def)

lemma get_prop_of_opt: "get_prop_opt v k = Some x \<Longrightarrow> get_prop v k = Inr (Some x)"
  by (cases v) (simp_all add: get_prop_opt_def get_prop_def)

lemma older_than_window_num: "older_than_window now (Some (JNum t)) = (now - t > CACHE_DURATION)"
  by (simp add: older_than_window_def ToNumber_def)

lemma check_meta_expired:
  assumes "products_meta_field s (lit ''timestamp'') = Some (JNum t)" and "now - t > CACHE_DURATION"
  shows "ProductCache_check_meta now s = MetaExpired"
proof -
  from assms(1) obtain meta v where m: "localStorage s PRODUCTS_CACHE_KEY = Some meta"
      "JSON_parse meta = Inr v" "get_prop_opt v (lit ''timestamp'') = Some (JNum t)"
    by (auto simp: products_meta_field_def split: option.splits sum.splits)
  have "meta \<noteq> []" using m(2) JSON_parse_Nil by auto
  then show ?thesis
    using m assms(2) get_prop_of_opt [OF m(3)]
    by (simp add: ProductCache_check_meta_def older_than_window_num)
qed

lemma check_meta_fresh:
  assumes "products_meta_field s (lit ''timestamp'') = Some (JNum t)" and "now - t \<le> CACHE_DURATION"
  shows "ProductCache_check_meta now s = MetaFresh"
proof -
  from assms(1) obtain meta v where m: "localStorage s PRODUCTS_CACHE_KEY = Some meta"
      "JSON_parse meta = Inr v" "get_prop_opt v (lit ''timestamp'') = Some (JNum t)"
    by (auto simp: products_meta_field_def split: option.splits sum.splits)
  have "meta \<noteq> []" using m(2) JSON_parse_Nil by auto
  then show ?thesis
    using m assms(2) get_prop_of_opt [OF m(3)]
    by (simp add: ProductCache_check_meta_def older_than_window_num)
qed

lemma user_get_expired:
  assumes "user_blob_field s (lit ''timestamp'') = Some (JNum t)" and "now - t > CACHE_DURATION"
  shows "UserCache_get now s = (JNull, UserCache_clear s)"
proof -
  from assms(1) obtain enc v where m: "localStorage s USER_CACHE_KEY = Some enc"
      "decode_blob enc = Inr v" "get_prop_opt v (lit ''timestamp'') = Some (JNum t)"
    by (auto simp: user_blob_field_def split: option.splits sum.splits)
  have "enc \<noteq> []" using m(2) decode_blob_Nil by auto
  then show ?thesis
    using m assms(2) get_prop_of_opt [OF m(3)]
    by (simp add: UserCache_get_def older_than_window_num)
qed

section \<open>Text that btoa accepts\<close>

lemma latin1_simps [simp]:
  "latin1 []" "latin1 (c # s) = (c \<le> 255 \<and> latin1 s)" "latin1 (a @ b) = (latin1 a \<and> latin1 b)"
  by (simp_all add: latin1_def)

lemma latin1_digits: "latin1 (digits n)"
  using digits_all_digit [of n]
  by (induction "digits n" arbitrary: n) (auto simp: latin1_def list_all_iff is_digit_def)

lemma latin1_number_text: "latin1 (number_text i)"
  by (simp add: number_text_def latin1_digits)

lemma hex_digit_small: "d < 16 \<Longrightarrow> hex_digit d \<le> 255"
  by (simp add: hex_digit_def)

lemma latin1_unicode_escape: "latin1 (unicode_escape c)"
  by (simp add: unicode_escape_def hex_digit_small)

lemma latin1_escape_unit: "c \<le> 255 \<Longrightarrow> latin1 (escape_unit c)"
  by (simp add: escape_unit_def latin1_unicode_escape)

lemma latin1_no_surrogate: "c \<le> 255 \<Longrightarrow> \<not> high_surrogate c \<and> \<not> low_surrogate c"
  by (simp add: high_surrogate_def low_surrogate_def)

lemma latin1_quote_units: "latin1 s \<Longrightarrow> latin1 (quote_units s)"
  by (induction s rule: quote_units.induct)
     (simp_all add: latin1_no_surrogate latin1_escape_unit)

lemma latin1_quote: "latin1 s \<Longrightarrow> latin1 (quote s)"
  by (simp add: quote_def latin1_quote_units)

lemma latin1_toString36: "latin1 (toString36 n)"
proof (induction n rule: toString36.induct)
  case (1 n)
  have "n mod 36 < 36" by simp
  then have "base36_digit (n mod 36) \<le> 255" unfolding base36_digit_def by auto
  moreover have "n < 36 \<Longrightarrow> base36_digit n \<le> 255" unfolding base36_digit_def by auto
  ultimately show ?case using 1 by (subst toString36.simps) simp
qed

lemma latin1_generateHash: "latin1 (generateHash v)"
  by (simp add: generateHash_def latin1_toString36)

lemma latin1_stringify:
  "latin1_json v \<Longrightarrow> latin1 (JSON_stringify v)"
  "latin1_elems xs \<Longrightarrow> latin1 (stringify_elems xs)"
  "latin1_members kvs \<Longrightarrow> latin1 (stringify_members kvs)"
  by (induction v and xs and kvs rule: JSON_stringify_stringify_elems_stringify_members.induct)
     (simp_all add: lit_def latin1_number_text latin1_quote)

lemma b64_decode_text:
  assumes "latin1_json v" and "wf_json v"
  shows "btoa (JSON_stringify v) = Inr (b64_encode (JSON_stringify v))"
    and "decode_blob (b64_encode (JSON_stringify v)) = Inr v"
proof -
  have l: "list_all (\<lambda>c. c \<le> 255) (JSON_stringify v)"
    using latin1_stringify(1) [OF assms(1)] by (simp add: latin1_def)
  show "btoa (JSON_stringify v) = Inr (b64_encode (JSON_stringify v))"
    using l by (simp add: btoa_def)
  show "decode_blob (b64_encode (JSON_stringify v)) = Inr v"
    using atob_b64_encode [OF l] JSON_parse_stringify [OF assms(2)]
    by (simp add: decode_blob_def)
qed



section \<open>The stored user blob\<close>

lemma blob_ok:
  assumes "wf_json d" and "latin1_json d"
  shows "wf_json (tampered_blob t user d)" and "latin1_json (tampered_blob t user d)"
  using assms by (simp_all add: tampered_blob_def lit_def latin1_generateHash)

lemma user_blob_tampered: "user_blob t user = tampered_blob t user user"
  by (simp add: user_blob_def tampered_blob_def)



lemma set_stores_blob:
  assumes "wf_json user" and "latin1_json user"
  shows "UserCache_set now user s =
           s\<lparr>localStorage := (localStorage s)(USER_CACHE_KEY \<mapsto>
                b64_encode (JSON_stringify (tampered_blob now user user)))\<rparr>"
  using b64_decode_text(1) [OF blob_ok(2) [OF assms(1,2)] blob_ok(1) [OF assms(1,2)], of now user]
  by (simp add: UserCache_set_def user_blob_tampered)



section \<open>The product store after set\<close>

lemma obj_get_obj_set: "obj_get (obj_set k v ob) k' = (if k' = k then Some v else obj_get ob k')"
  by (induction ob) auto

lemma obj_get_None_iff: "obj_get ob k = None \<longleftrightarrow> k \<notin> fst ` set ob"
  by (induction ob) (auto split: if_splits)

lemma reserved_names_differ:
  "lit ''_cached_at'' \<noteq> lit ''_hash''" "lit ''id'' \<noteq> lit ''_hash''" "lit ''id'' \<noteq> lit ''_cached_at''"
  "lit ''_hash'' \<noteq> lit ''_cached_at''" "lit ''_hash'' \<noteq> lit ''id''" "lit ''_cached_at'' \<noteq> lit ''id''"
  by (simp_all add: lit_def)

lemma obj_remove_absent: "k \<notin> fst ` set ob \<Longrightarrow> obj_remove k ob = ob"
  by (induction ob) (auto simp: obj_remove_def)

lemma obj_remove_append: "obj_remove k (a @ b) = obj_remove k a @ obj_remove k b"
  by (simp add: obj_remove_def)

lemma strip_cached_record:
  assumes "plain_product p"
  shows "strip_meta (cached_record t p) = p"
proof -
  from assms obtain kvs where p: "p = JObj kvs"
    and c: "lit ''_cached_at'' \<notin> fst ` set kvs" and h: "lit ''_hash'' \<notin> fst ` set kvs"
    by (cases p) (auto simp: plain_product_def product_id_def obj_get_None_iff)
  have "cached_record t p =
          (kvs @ [(lit ''_cached_at'', JNum t)]) @ [(lit ''_hash'', JStr (generateHash p))]"
    using c h p reserved_names_differ
    by (simp add: cached_record_def spread_def obj_set_fresh)
  then show ?thesis
    using c h p reserved_names_differ
    by (simp add: strip_meta_def obj_remove_append obj_remove_absent) (simp add: obj_remove_def)
qed

lemma key_of_cached_record:
  assumes "product_id p = Some n"
  shows "key_of (cached_record t p) = Some (NumKey n)"
proof -
  from assms obtain kvs where p: "p = JObj kvs" and i: "obj_get kvs (lit ''id'') = Some (JNum n)"
    by (cases p) (auto simp: product_id_def split: option.splits json.splits)
  show ?thesis
    using p i reserved_names_differ
    by (simp add: key_of_def cached_record_def spread_def obj_get_obj_set)
qed

lemma set_store_insert: "set (store_insert k r recs) = insert r (set recs)"
  by (induction recs) auto

lemma length_store_insert: "length (store_insert k r recs) = Suc (length recs)"
  by (induction recs) auto

lemma store_get_None_iff: "store_get k recs = None \<longleftrightarrow> (\<forall>r\<in>set recs. key_of r \<noteq> Some k)"
  by (auto simp: store_get_def find_None_iff)

lemma add_products_distinct:
  assumes "list_all plain_product ps" and "distinct (map product_id ps)"
    and "\<forall>p\<in>set ps. \<forall>r\<in>set recs. key_of r \<noteq> map_option NumKey (product_id p)"
  shows "\<exists>recs'. add_products t ps recs failed = (None, recs', failed) \<and>
           set recs' = set recs \<union> cached_record t ` set ps \<and>
           length recs' = length recs + length ps"
  using assms
proof (induction ps arbitrary: recs)
  case Nil
  then show ?case by simp
next
  case (Cons p ps)
  from Cons.prems(1) obtain n where n: "product_id p = Some n"
    by (auto simp: plain_product_def)
  let ?r = "cached_record t p"
  let ?recs = "store_insert (NumKey n) ?r recs"
  have k: "key_of ?r = Some (NumKey n)" by (rule key_of_cached_record [OF n])
  have "store_get (NumKey n) recs = None"
    using Cons.prems(3) n by (auto simp: store_get_None_iff)
  then have add: "store_add ?r recs = Inr ?recs" using k by (simp add: store_add_def)
  have "\<forall>q\<in>set ps. \<forall>r\<in>set ?recs. key_of r \<noteq> map_option NumKey (product_id q)"
  proof (intro ballI)
    fix q r assume q: "q \<in> set ps" and r: "r \<in> set ?recs"
    from Cons.prems(1) q obtain m where m: "product_id q = Some m"
      by (auto simp: plain_product_def list_all_iff)
    have "m \<noteq> n" using Cons.prems(2) q m n by (auto simp: image_iff)
    show "key_of r \<noteq> map_option NumKey (product_id q)"
    proof (cases "r = ?r")
      case True
      then show ?thesis using k m \<open>m \<noteq> n\<close> by simp
    next
      case False
      then have "r \<in> set recs" using r by (simp add: set_store_insert)
      then show ?thesis using Cons.prems(3) q by simp
    qed
  qed
  with Cons.IH [of ?recs] Cons.prems(1,2)
  obtain recs' where "add_products t ps ?recs failed = (None, recs', failed)"
      "set recs' = set ?recs \<union> cached_record t ` set ps"
      "length recs' = length ?recs + length ps"
    by auto
  then show ?case using add by (auto simp: set_store_insert length_store_insert)
qed

lemma meta_ok: "wf_json (products_meta t ps)"
  by (simp add: products_meta_def lit_def)

lemma meta_timestamp_after_set:
  "localStorage s PRODUCTS_CACHE_KEY = Some (JSON_stringify (products_meta t ps)) \<Longrightarrow>
   products_meta_field s (lit ''timestamp'') = Some (JNum t)"
  using JSON_parse_stringify [OF meta_ok, of t ps]
  by (simp add: products_meta_field_def) (simp add: products_meta_def get_prop_opt_def lit_def)

lemma set_then_get:
  assumes "products \<noteq> []" and "list_all plain_product products"
    and "distinct (map product_id products)" and "idb_available s"
    and "now' - now \<le> CACHE_DURATION"
  shows "\<exists>xs. ProductCache_get now' (ProductCache_set now products s) =
                 (JArr xs, ProductCache_set now products s) \<and>
               set xs = set products \<and> length xs = length products"
proof -
  obtain recs where a: "add_products now products [] False = (None, recs, False)"
      and b: "set recs = cached_record now ` set products"
      and c: "length recs = length products"
    using add_products_distinct [OF assms(2,3), of "[]" now False] by auto
  let ?s' = "ProductCache_set now products s"
  have s': "?s' = s\<lparr>products_store := recs,
                    localStorage := (localStorage s)(PRODUCTS_CACHE_KEY \<mapsto>
                       JSON_stringify (products_meta now products))\<rparr>"
    using a assms(4) by (simp add: ProductCache_set_def)
  have "products_meta_field ?s' (lit ''timestamp'') = Some (JNum now)"
    by (rule meta_timestamp_after_set) (simp add: s')
  then have fresh: "ProductCache_check_meta now' ?s' = MetaFresh"
    using assms(5) by (rule check_meta_fresh)
  have ne: "recs \<noteq> []" using c assms(1) by auto
  have "map strip_meta recs \<noteq> []" using ne by simp
  have st: "set (map strip_meta recs) = set products"
  proof -
    have "strip_meta ` cached_record now ` set products = set products"
      using assms(2) by (force simp: list_all_iff strip_cached_record image_iff)
    then show ?thesis using b by simp
  qed
  have "ProductCache_get now' ?s' = (JArr (map strip_meta recs), ?s')"
    using fresh ne assms(4)
    by (simp add: ProductCache_get_def ProductCache_read_all_def) (simp add: s')
  then show ?thesis using st c by auto
qed

lemma UserCache_set_frame:
  "products_store (UserCache_set now user s) = products_store s"
  "idb_available (UserCache_set now user s) = idb_available s"
  "k \<noteq> USER_CACHE_KEY \<Longrightarrow> localStorage (UserCache_set now user s) k = localStorage s k"
  by (simp_all add: UserCache_set_def split: sum.splits)

lemma products_meta_field_UserCache_set:
  "products_meta_field (UserCache_set now user s) k = products_meta_field s k"
  by (simp add: products_meta_field_def UserCache_set_frame)

lemma user_blob_field_after_set:
  assumes "wf_json user" and "latin1_json user"
  shows "user_blob_field (UserCache_set now user s) (lit ''timestamp'') = Some (JNum now)"
  using b64_decode_text(2) [OF blob_ok(2) [OF assms] blob_ok(1) [OF assms], of now user]
  by (simp add: set_stores_blob [OF assms] user_blob_field_def)
     (simp add: tampered_blob_def get_prop_opt_def lit_def)

lemma ProductCache_set_plain:
  assumes "list_all plain_product products" and "distinct (map product_id products)"
    and "idb_available s"
  shows "\<exists>recs. ProductCache_set now products s =
                   s\<lparr>products_store := recs,
                     localStorage := (localStorage s)(PRODUCTS_CACHE_KEY \<mapsto>
                        JSON_stringify (products_meta now products))\<rparr> \<and>
                set recs = cached_record now ` set products \<and>
                length recs = length products"
proof -
  obtain recs where a: "add_products now products [] False = (None, recs, False)"
      and b: "set recs = cached_record now ` set products"
      and c: "length recs = length products"
    using add_products_distinct [OF assms(1,2), of "[]" now False] by auto
  have "ProductCache_set now products s =
          s\<lparr>products_store := recs,
            localStorage := (localStorage s)(PRODUCTS_CACHE_KEY \<mapsto>
               JSON_stringify (products_meta now products))\<rparr>"
    using a assms(3) by (simp add: ProductCache_set_def)
  with b c show ?thesis by blast
qed

lemma products_meta_field_after_set:
  assumes "list_all plain_product products" and "distinct (map product_id products)"
    and "idb_available s"
  shows "products_meta_field (ProductCache_set now products s) (lit ''timestamp'') = Some (JNum now)"
proof -
  obtain recs where "ProductCache_set now products s =
                   s\<lparr>products_store := recs,
                     localStorage := (localStorage s)(PRODUCTS_CACHE_KEY \<mapsto>
                        JSON_stringify (products_meta now products))\<rparr>"
    using ProductCache_set_plain [OF assms] by blast
  then show ?thesis by (simp add: meta_timestamp_after_set)
qed

lemma idb_available_ProductCache_set:
  "idb_available (ProductCache_set now products s) = idb_available s"
  by (simp add: ProductCache_set_def split: prod.splits option.splits)

lemma plain_examples: "plain_product rose" "plain_product oud" "product_id rose \<noteq> product_id oud"
  by code_simp+


section \<open>Stored hashes and pending operations\<close>

lemma filter_obj_set_excluded:
  "(\<And>x. \<not> P (k, x)) \<Longrightarrow> filter P (obj_set k v r) = filter P r"
  by (induction r) auto

lemma strip_meta_set_hash: "strip_meta (obj_set (lit ''_hash'') v r) = strip_meta r"
proof -
  have "obj_remove (lit ''_hash'') (obj_remove (lit ''_cached_at'') x) =
          filter (\<lambda>kv. fst kv \<noteq> lit ''_cached_at'' \<and> fst kv \<noteq> lit ''_hash'') x" for x
    by (simp add: obj_remove_def conj_commute)
  then show ?thesis
    by (simp add: strip_meta_def filter_obj_set_excluded)
qed

lemma key_of_set_hash: "key_of (obj_set (lit ''_hash'') v r) = key_of r"
  using reserved_names_differ by (simp add: key_of_def obj_get_obj_set)

lemma cached_at_set_hash:
  "obj_get (obj_set (lit ''_hash'') v r) (lit ''_cached_at'') = obj_get r (lit ''_cached_at'')"
  using reserved_names_differ by (simp add: obj_get_obj_set)

lemma store_get_map_hash:
  "store_get k (map (\<lambda>r. obj_set (lit ''_hash'') (h r) r) recs) =
     map_option (\<lambda>r. obj_set (lit ''_hash'') (h r) r) (store_get k recs)"
  by (induction recs) (simp_all add: store_get_def key_of_set_hash)

lemma check_meta_with_hashes:
  "ProductCache_check_meta now (with_hashes h s) = ProductCache_check_meta now s"
  by (simp add: ProductCache_check_meta_def with_hashes_def)

lemma read_all_with_hashes:
  "ProductCache_read_all (with_hashes h s) = ProductCache_read_all s"
  by (simp add: ProductCache_read_all_def with_hashes_def strip_meta_set_hash comp_def)

lemma get_with_hashes:
  "fst (ProductCache_get now (with_hashes h s)) = fst (ProductCache_get now s)"
  by (simp add: ProductCache_get_def check_meta_with_hashes read_all_with_hashes
           split: meta_check.splits)

lemma getById_with_hashes:
  "fst (ProductCache_getById now ident (with_hashes h s)) = fst (ProductCache_getById now ident s)"
proof (cases ident)
  case None
  then show ?thesis by (simp add: ProductCache_getById_def with_hashes_def)
next
  case (Some n)
  show ?thesis
  proof (cases "store_get (NumKey n) (products_store s)")
    case None
    with Some show ?thesis
      by (simp add: ProductCache_getById_def with_hashes_def store_get_map_hash)
  next
    case (Some r)
    with \<open>ident = Some n\<close> show ?thesis
      by (simp add: ProductCache_getById_def with_hashes_def store_get_map_hash
                    cached_at_set_hash strip_meta_set_hash)
  qed
qed

lemma check_meta_reads_timestamp:
  assumes "localStorage s PRODUCTS_CACHE_KEY = Some meta" and "JSON_parse meta = Inr (JObj kvs)"
  shows "ProductCache_check_meta now s =
           (if older_than_window now (obj_get kvs (lit ''timestamp'')) then MetaExpired
            else MetaFresh)"
proof -
  have "meta \<noteq> []" using assms(2) JSON_parse_Nil by auto
  then show ?thesis using assms by (simp add: ProductCache_check_meta_def get_prop_def)
qed

lemma meta_after_set:
  assumes "list_all plain_product products" and "distinct (map product_id products)"
    and "idb_available s"
  shows "localStorage (ProductCache_set now products s) PRODUCTS_CACHE_KEY =
           Some (JSON_stringify (products_meta now products))"
proof -
  obtain recs where "ProductCache_set now products s =
                   s\<lparr>products_store := recs,
                     localStorage := (localStorage s)(PRODUCTS_CACHE_KEY \<mapsto>
                        JSON_stringify (products_meta now products))\<rparr>"
    using ProductCache_set_plain [OF assms] by blast
  then show ?thesis by simp
qed

lemma user_slot_ProductCache_clear:
  "localStorage (ProductCache_clear s) USER_CACHE_KEY = localStorage s USER_CACHE_KEY"
  by (simp add: ProductCache_clear_def)

lemma user_slot_tasks:
  "localStorage (foldl (\<lambda>s t. run_task t s) s ts) USER_CACHE_KEY = localStorage s USER_CACHE_KEY"
  by (induction ts arbitrary: s) (simp_all add: run_task_def user_slot_ProductCache_clear split: task.splits)

lemma user_slot_settle:
  "localStorage (settle rt) USER_CACHE_KEY = localStorage (storage rt) USER_CACHE_KEY"
  by (simp add: settle_def user_slot_tasks)

lemma UserCache_get_no_slot:
  "localStorage s USER_CACHE_KEY = None \<Longrightarrow> UserCache_get now s = (JNull, s)"
  by (simp add: UserCache_get_def)

lemma read_all_after_clear: "ProductCache_read_all (ProductCache_clear s) = JNull"
  by (simp add: ProductCache_read_all_def ProductCache_clear_def)

lemma get_after_clear: "fst (ProductCache_get now (ProductCache_clear s)) = JNull"
proof (cases "idb_available s")
  case True
  then show ?thesis
    by (simp add: ProductCache_get_def ProductCache_check_meta_def ProductCache_clear_def)
next
  case False
  then have "ProductCache_read_all (ProductCache_clear s) = JNull"
    by (simp add: read_all_after_clear)
  then show ?thesis
    by (simp add: ProductCache_get_def split: meta_check.splits)
qed

lemma settle_snoc:
  "settle \<lparr>storage = s, pending = ts @ [ClearProducts]\<rparr> =
     ProductCache_clear (settle \<lparr>storage = s, pending = ts\<rparr>)"
  by (simp add: settle_def run_task_def)

lemma invalidate_all_state:
  assumes "type = None \<or> type = Some All"
  shows "invalidateCache type rt =
           \<lparr>storage = UserCache_clear (storage rt), pending = pending rt @ [ClearProducts]\<rparr>"
  using assms by (auto simp: invalidateCache_def Let_def)

lemma checkout_invalidates:
  assumes "truthy_opt (get_prop_opt response (lit ''order''))
           \<or> truthy_opt (get_prop_opt response (lit ''success''))"
  shows "apiCheckout (Inr response) s = (Inr response, \<lparr>storage = s, pending = [ClearProducts]\<rparr>)"
  using assms by (auto simp: apiCheckout_def invalidateCache_def)

lemma order_reply_truthy: "truthy_opt (get_prop_opt order_reply (lit ''order''))"
  by (simp add: order_reply_def get_prop_opt_def truthy_opt_def truthy_def)

lemma awaited_get_after_checkout:
  assumes "truthy_opt (get_prop_opt response (lit ''order''))
           \<or> truthy_opt (get_prop_opt response (lit ''success''))"
  shows "fst (await_ProductCache_get now (snd (apiCheckout (Inr response) s))) = JNull"
  using settle_snoc [of s "[]"]
  by (simp add: checkout_invalidates [OF assms] await_ProductCache_get_def read_all_after_clear
           split: meta_check.splits)

section \<open>The claims\<close>

text \<open>
  C1. The claim: when the collection metadata is fresh and its \<open>count\<close> differs from the
  number of stored records, \<open>ProductCache.get()\<close> returns null. The code never reads
  \<open>count\<close>. What holds: with metadata whose timestamp is within the window and a
  database that opens, \<open>get\<close> returns null exactly when the store is empty, and
  otherwise every stored record with its metadata stripped, whatever \<open>count\<close> says;
  the stores are left as they are.
\<close>

theorem fresh_get_ignores_count:
  assumes "products_meta_field s (lit ''timestamp'') = Some (JNum t)"
    and "now - t \<le> CACHE_DURATION" and "idb_available s"
  shows "ProductCache_get now s =
           ((if products_store s = [] then JNull else JArr (map strip_meta (products_store s))), s)"
  using check_meta_fresh [OF assms(1,2)] assms(3)
  by (simp add: ProductCache_get_def ProductCache_read_all_def)

theorem fresh_get_ignores_count_witness:
  "ProductCache_get 2000 (ProductCache_set 1000 [rose, oud] empty_cache) =
     (JArr [rose, oud], ProductCache_set 1000 [rose, oud] empty_cache)"
proof -
  let ?s = "ProductCache_set 1000 [rose, oud] empty_cache"
  have i: "idb_available empty_cache" by (simp add: empty_cache_def)
  have pl: "list_all plain_product [rose, oud]" "distinct (map product_id [rose, oud])"
    using plain_examples by simp_all
  have a: "products_meta_field ?s (lit ''timestamp'') = Some (JNum 1000)"
    by (rule products_meta_field_after_set [OF pl i])
  have b: "(2000::int) - 1000 \<le> CACHE_DURATION" by (simp add: CACHE_DURATION_def)
  have c: "idb_available ?s" by (simp add: idb_available_ProductCache_set i)
  have d: "map strip_meta (products_store ?s) = [rose, oud]" by code_simp
  then have e: "products_store ?s \<noteq> []" by auto
  show ?thesis using fresh_get_ignores_count [OF a b c] d e by simp
qed

theorem count_mismatch_not_a_miss:
  "ProductCache_check_meta 2000 torn_cache = MetaFresh \<and>
   products_meta_field torn_cache (lit ''count'') = Some (JNum 5) \<and>
   length (products_store torn_cache) = 1 \<and>
   fst (ProductCache_get 2000 torn_cache) = JArr [rose]"
  by code_simp




text \<open>
  C3. The claim: for every cached entry older than the freshness window, the get operation
  (\<open>ProductCache.get\<close>, \<open>ProductCache.getById\<close>, \<open>UserCache.get\<close>) returns null and
  evicts the entry. \<open>getById\<close> opens a read-only transaction: it returns null on an
  expired record and leaves the record in the store. What holds: \<open>ProductCache.get\<close>, on
  collection metadata whose timestamp is older than the window and with a database that
  opens, returns null, empties the store and removes the metadata; \<open>UserCache.get\<close>, on a
  blob whose timestamp is older than the window, returns null and removes the slot;
  \<open>getById\<close>, on a record whose \<open>_cached_at\<close> is older than the window, returns null
  and changes nothing.
\<close>

theorem expiry_miss_and_eviction:
  "(products_meta_field s (lit ''timestamp'') = Some (JNum t) \<and> now - t > CACHE_DURATION
      \<and> idb_available s \<longrightarrow>
    ProductCache_get now s =
      (JNull, s\<lparr>products_store := [],
               localStorage := (localStorage s)(PRODUCTS_CACHE_KEY := None)\<rparr>))
   \<and> (user_blob_field s (lit ''timestamp'') = Some (JNum t) \<and> now - t > CACHE_DURATION \<longrightarrow>
    UserCache_get now s =
      (JNull, s\<lparr>localStorage := (localStorage s)(USER_CACHE_KEY := None)\<rparr>))
   \<and> (idb_available s \<and> store_get (NumKey n) (products_store s) = Some r
      \<and> obj_get r (lit ''_cached_at'') = Some (JNum t) \<and> now - t > CACHE_DURATION \<longrightarrow>
    ProductCache_getById now (Some n) s = (JNull, s))"
proof (intro conjI impI)
  assume "products_meta_field s (lit ''timestamp'') = Some (JNum t) \<and> now - t > CACHE_DURATION
      \<and> idb_available s"
  then show "ProductCache_get now s =
      (JNull, s\<lparr>products_store := [],
               localStorage := (localStorage s)(PRODUCTS_CACHE_KEY := None)\<rparr>)"
    using check_meta_expired [of s t now]
    by (simp add: ProductCache_get_def ProductCache_clear_def)
next
  assume "user_blob_field s (lit ''timestamp'') = Some (JNum t) \<and> now - t > CACHE_DURATION"
  then show "UserCache_get now s =
      (JNull, s\<lparr>localStorage := (localStorage s)(USER_CACHE_KEY := None)\<rparr>)"
    using user_get_expired [of s t now] by (simp add: UserCache_clear_def)
next
  assume "idb_available s \<and> store_get (NumKey n) (products_store s) = Some r
      \<and> obj_get r (lit ''_cached_at'') = Some (JNum t) \<and> now - t > CACHE_DURATION"
  then show "ProductCache_getById now (Some n) s = (JNull, s)"
    by (simp add: ProductCache_getById_def older_than_window_num)
qed

theorem expiry_miss_and_eviction_witness:
  "ProductCache_get 1801001 (UserCache_set 1000 rose (ProductCache_set 1000 [rose] empty_cache)) =
      (JNull, (UserCache_set 1000 rose (ProductCache_set 1000 [rose] empty_cache))
               \<lparr>products_store := [],
                localStorage :=
                  (localStorage (UserCache_set 1000 rose (ProductCache_set 1000 [rose] empty_cache)))
                  (PRODUCTS_CACHE_KEY := None)\<rparr>)
   \<and> UserCache_get 1801001 (UserCache_set 1000 rose (ProductCache_set 1000 [rose] empty_cache)) =
      (JNull, (UserCache_set 1000 rose (ProductCache_set 1000 [rose] empty_cache))
               \<lparr>localStorage :=
                  (localStorage (UserCache_set 1000 rose (ProductCache_set 1000 [rose] empty_cache)))
                  (USER_CACHE_KEY := None)\<rparr>)
   \<and> ProductCache_getById 1801001 (Some 1)
        (UserCache_set 1000 rose (ProductCache_set 1000 [rose] empty_cache)) =
      (JNull, UserCache_set 1000 rose (ProductCache_set 1000 [rose] empty_cache))"
proof -
  let ?p = "ProductCache_set 1000 [rose] empty_cache"
  let ?s = "UserCache_set 1000 rose ?p"
  have i: "idb_available empty_cache" by (simp add: empty_cache_def)
  have pl: "list_all plain_product [rose]" "distinct (map product_id [rose])"
    by (simp_all add: plain_examples)
  have w: "wf_json rose" "latin1_json rose" by code_simp+
  have a: "products_meta_field ?s (lit ''timestamp'') = Some (JNum 1000)"
    by (simp add: products_meta_field_UserCache_set products_meta_field_after_set [OF pl i])
  have b: "user_blob_field ?s (lit ''timestamp'') = Some (JNum 1000)"
    by (rule user_blob_field_after_set [OF w])
  have c: "idb_available ?s"
    by (simp add: UserCache_set_frame idb_available_ProductCache_set i)
  have "store_get (NumKey 1) (products_store ?p) = Some (cached_record 1000 rose)" by code_simp
  then have d: "store_get (NumKey 1) (products_store ?s) = Some (cached_record 1000 rose)"
    by (simp add: UserCache_set_frame)
  have e: "obj_get (cached_record 1000 rose) (lit ''_cached_at'') = Some (JNum 1000)" by code_simp
  have f: "(1801001::int) - 1000 > CACHE_DURATION" by (simp add: CACHE_DURATION_def)
  show ?thesis
    using expiry_miss_and_eviction [of ?s 1000 1801001 1 "cached_record 1000 rose"] a b c d e f
    by simp
qed

theorem getById_expired_not_evicted:
  "obj_get (cached_record 1000 rose) (lit ''_cached_at'') = Some (JNum 1000) \<and>
   1801001 - 1000 > CACHE_DURATION \<and>
   fst (ProductCache_getById 1801001 (Some 1) (ProductCache_set 1000 [rose] empty_cache)) = JNull \<and>
   store_get (NumKey 1)
     (products_store (snd (ProductCache_getById 1801001 (Some 1)
                             (ProductCache_set 1000 [rose] empty_cache)))) =
     Some (cached_record 1000 rose)"
  by code_simp




text \<open>
  C5. The claim: no public cache operation throws, whatever the stores hold.
  \<open>ProductCache.isExpired()\<close> parses the metadata outside any \<open>try\<close>: on metadata that
  is not JSON the \<open>SyntaxError\<close> of \<open>JSON.parse\<close> reaches the caller. Its sibling
  \<open>UserCache.isExpired()\<close> catches the same failure and answers \<open>true\<close>.
\<close>

theorem ProductCache_isExpired_throws:
  "ProductCache_isExpired 2000 garbled_meta_cache = Inl SyntaxError \<and>
   UserCache_isExpired 2000 garbled_user_cache = True"
  by code_simp

text \<open>
  C6. The claim: the invalidation of the product cache is awaited before \<open>apiCheckout\<close>
  resolves. \<open>apiCheckout\<close> awaits the result of \<open>invalidateCache('products')\<close>, which is
  \<open>undefined\<close>: \<open>invalidateCache\<close> does not return the promise of
  \<open>ProductCache.clear()\<close>. When \<open>apiCheckout\<close> resolves on a reply with an \<open>order\<close>, the
  stores are as before the call and the clear is still pending: the metadata is in
  \<open>localStorage\<close> (\<open>ProductCache.isExpired()\<close> answers \<open>false\<close>) and the record is in the
  store.
\<close>

theorem apiCheckout_resolves_before_clear:
  "apiCheckout (Inr order_reply) (ProductCache_set 1000 [rose] empty_cache) =
     (Inr order_reply,
      \<lparr>storage = ProductCache_set 1000 [rose] empty_cache, pending = [ClearProducts]\<rparr>) \<and>
   ProductCache_isExpired 2000 (ProductCache_set 1000 [rose] empty_cache) = Inr False \<and>
   products_store (ProductCache_set 1000 [rose] empty_cache) = [cached_record 1000 rose]"
proof -
  have a: "apiCheckout (Inr order_reply) (ProductCache_set 1000 [rose] empty_cache) =
     (Inr order_reply,
      \<lparr>storage = ProductCache_set 1000 [rose] empty_cache, pending = [ClearProducts]\<rparr>)"
    using order_reply_truthy by (simp add: checkout_invalidates)
  have b: "ProductCache_isExpired 2000 (ProductCache_set 1000 [rose] empty_cache) = Inr False"
    by code_simp
  have c: "products_store (ProductCache_set 1000 [rose] empty_cache) = [cached_record 1000 rose]"
    by code_simp
  show ?thesis using a b c by blast
qed

text \<open>
  C7. After \<open>invalidateCache('all')\<close> (or \<open>invalidateCache()\<close>) has returned, an awaited
  \<open>ProductCache.get()\<close> and \<open>UserCache.get()\<close> return null, from every state of the stores
  and whatever operations were pending: \<open>UserCache.clear\<close> has run, and the requests of
  the \<open>ProductCache.clear\<close> that was started are served before those of the \<open>get\<close>. The
  same holds once the pending operations have run.
\<close>

theorem invalidate_all_then_get_null:
  assumes "type = None \<or> type = Some All"
  shows "fst (await_ProductCache_get now (invalidateCache type rt)) = JNull \<and>
         fst (UserCache_get now (storage (invalidateCache type rt))) = JNull \<and>
         fst (UserCache_get now
                (storage (snd (await_ProductCache_get now (invalidateCache type rt))))) = JNull \<and>
         fst (ProductCache_get now (settle (invalidateCache type rt))) = JNull \<and>
         fst (UserCache_get now (settle (invalidateCache type rt))) = JNull"
proof -
  let ?rt = "invalidateCache type rt"
  have st: "?rt = \<lparr>storage = UserCache_clear (storage rt), pending = pending rt @ [ClearProducts]\<rparr>"
    by (rule invalidate_all_state [OF assms])
  have slot: "localStorage (storage ?rt) USER_CACHE_KEY = None"
    by (simp add: st UserCache_clear_def)
  have settled: "settle ?rt =
      ProductCache_clear (settle \<lparr>storage = UserCache_clear (storage rt), pending = pending rt\<rparr>)"
    by (simp add: st settle_snoc)
  have slot': "localStorage (settle ?rt) USER_CACHE_KEY = None"
    using slot by (simp add: user_slot_settle)
  have a: "fst (await_ProductCache_get now ?rt) = JNull"
    by (simp add: await_ProductCache_get_def settled read_all_after_clear split: meta_check.splits)
  have b: "fst (UserCache_get now (storage ?rt)) = JNull"
    by (simp add: UserCache_get_no_slot [OF slot])
  have "localStorage (storage (snd (await_ProductCache_get now ?rt))) USER_CACHE_KEY = None"
    using slot slot'
    by (simp add: await_ProductCache_get_def user_slot_ProductCache_clear split: meta_check.splits)
  then have c: "fst (UserCache_get now (storage (snd (await_ProductCache_get now ?rt)))) = JNull"
    by (simp add: UserCache_get_no_slot)
  have d: "fst (ProductCache_get now (settle ?rt)) = JNull"
    by (simp add: settled get_after_clear)
  have e: "fst (UserCache_get now (settle ?rt)) = JNull"
    by (simp add: UserCache_get_no_slot [OF slot'])
  show ?thesis using a b c d e by blast
qed

theorem invalidate_all_then_get_null_witness:
  "fst (await_ProductCache_get 2000
          (invalidateCache (Some All)
             \<lparr>storage = UserCache_set 1000 rose (ProductCache_set 1000 [rose] empty_cache),
              pending = []\<rparr>)) = JNull \<and>
   fst (UserCache_get 2000
          (storage (invalidateCache (Some All)
             \<lparr>storage = UserCache_set 1000 rose (ProductCache_set 1000 [rose] empty_cache),
              pending = []\<rparr>))) = JNull"
  using invalidate_all_then_get_null
    [of "Some All" 2000
        "\<lparr>storage = UserCache_set 1000 rose (ProductCache_set 1000 [rose] empty_cache),
          pending = []\<rparr>"]
  by simp

text \<open>
  C8. The claim: for products with pairwise distinct numeric ids, \<open>ProductCache.set\<close>
  followed by \<open>ProductCache.get()\<close> within the freshness window returns exactly the
  records provided, as a set. For the empty list \<open>get\<close> returns null, and a property
  named \<open>_cached_at\<close> or \<open>_hash\<close> of a product is overwritten and then stripped. What
  holds: for a non-empty list of objects with pairwise distinct numeric ids and without
  those two property names, with a database that opens, \<open>get\<close> returns an array with the
  same elements as the list and the same length, whatever the stores held before.
\<close>

theorem product_set_get_snapshot:
  assumes "products \<noteq> []" and "list_all plain_product products"
    and "distinct (map product_id products)" and "idb_available s"
    and "now' - now \<le> CACHE_DURATION"
  shows "\<exists>xs. ProductCache_get now' (ProductCache_set now products s) =
                 (JArr xs, ProductCache_set now products s) \<and>
               set xs = set products \<and> length xs = length products"
  using assms by (rule set_then_get)

theorem product_set_get_snapshot_witness:
  "\<exists>xs. ProductCache_get 2000 (ProductCache_set 1000 [oud, rose] torn_cache) =
            (JArr xs, ProductCache_set 1000 [oud, rose] torn_cache) \<and>
         set xs = {oud, rose} \<and> length xs = 2"
proof -
  have a: "[oud, rose] \<noteq> []" by simp
  have b: "list_all plain_product [oud, rose]" by (simp add: plain_examples)
  have c: "distinct (map product_id [oud, rose])" using plain_examples(3) by auto
  have d: "idb_available torn_cache" by (simp add: torn_cache_def)
  have e: "(2000::int) - 1000 \<le> CACHE_DURATION" by (simp add: CACHE_DURATION_def)
  show ?thesis using product_set_get_snapshot [OF a b c d e] by (simp add: numeral_2_eq_2)
qed

theorem product_set_get_empty_or_reserved:
  "fst (ProductCache_get 1000 (ProductCache_set 1000 [] empty_cache)) = JNull \<and>
   fst (ProductCache_get 1000 (ProductCache_set 1000 [labelled] empty_cache)) =
     JArr [JObj [(lit ''id'', JNum 1)]] \<and>
   JObj [(lit ''id'', JNum 1)] \<noteq> labelled"
  by code_simp

text \<open>
  C9. When \<open>ProductCache.getById\<close> misses, \<open>apiGetProduct\<close> gives what the request to
  the backend gives and leaves both stores as they were; on a hit, too, nothing is
  written.
\<close>

theorem apiGetProduct_miss_leaves_cache:
  "snd (apiGetProduct now productId reply s) = s \<and>
   (fst (ProductCache_getById now (to_number productId) s) = JNull \<longrightarrow>
      apiGetProduct now productId reply s = (reply, s))"
proof -
  have st: "snd (ProductCache_getById now (to_number productId) s) = s"
    by (rule getById_keeps_state)
  show ?thesis
    using st
    by (cases "ProductCache_getById now (to_number productId) s")
       (simp add: apiGetProduct_def truthy_def)
qed

theorem apiGetProduct_miss_leaves_cache_witness:
  "apiGetProduct 2000 (JNum 999) (Inr (JObj [(lit ''product'', oud)]))
     (ProductCache_set 1000 [rose] empty_cache) =
   (Inr (JObj [(lit ''product'', oud)]), ProductCache_set 1000 [rose] empty_cache)"
proof -
  have "fst (ProductCache_getById 2000 (to_number (JNum 999))
               (ProductCache_set 1000 [rose] empty_cache)) = JNull"
    by code_simp
  then show ?thesis
    using apiGetProduct_miss_leaves_cache
      [of 2000 "JNum 999" "Inr (JObj [(lit ''product'', oud)])"
          "ProductCache_set 1000 [rose] empty_cache"]
    by simp
qed

text \<open>
  C10. No read path recomputes or compares the per-record \<open>_hash\<close> or the hash of the
  collection. Overwriting the \<open>_hash\<close> of every stored record with arbitrary values
  changes the result of neither \<open>ProductCache.get()\<close> nor \<open>ProductCache.getById()\<close>; with
  a database that opens, fresh metadata and a store that is not empty \<open>get\<close> returns every
  record stripped, and \<open>getById\<close> returns a stored record that is not expired stripped;
  and of metadata that parses to an object \<open>get\<close> reads the \<open>timestamp\<close> alone.
\<close>

theorem reads_ignore_stored_hashes:
  "fst (ProductCache_get now (with_hashes h s)) = fst (ProductCache_get now s) \<and>
   fst (ProductCache_getById now ident (with_hashes h s)) =
     fst (ProductCache_getById now ident s) \<and>
   (idb_available s \<and> ProductCache_check_meta now s = MetaFresh \<and> products_store s \<noteq> [] \<longrightarrow>
      fst (ProductCache_get now s) = JArr (map strip_meta (products_store s))) \<and>
   (idb_available s \<and> store_get (NumKey n) (products_store s) = Some r \<and>
      \<not> older_than_window now (obj_get r (lit ''_cached_at'')) \<longrightarrow>
      fst (ProductCache_getById now (Some n) s) = strip_meta r) \<and>
   (localStorage s PRODUCTS_CACHE_KEY = Some meta \<and> JSON_parse meta = Inr (JObj kvs) \<longrightarrow>
      ProductCache_check_meta now s =
        (if older_than_window now (obj_get kvs (lit ''timestamp'')) then MetaExpired
         else MetaFresh))"
proof (intro conjI impI)
  show "fst (ProductCache_get now (with_hashes h s)) = fst (ProductCache_get now s)"
    by (rule get_with_hashes)
  show "fst (ProductCache_getById now ident (with_hashes h s)) =
          fst (ProductCache_getById now ident s)"
    by (rule getById_with_hashes)
next
  assume "idb_available s \<and> ProductCache_check_meta now s = MetaFresh \<and> products_store s \<noteq> []"
  then show "fst (ProductCache_get now s) = JArr (map strip_meta (products_store s))"
    by (simp add: ProductCache_get_def ProductCache_read_all_def)
next
  assume "idb_available s \<and> store_get (NumKey n) (products_store s) = Some r \<and>
      \<not> older_than_window now (obj_get r (lit ''_cached_at''))"
  then show "fst (ProductCache_getById now (Some n) s) = strip_meta r"
    by (simp add: ProductCache_getById_def)
next
  assume "localStorage s PRODUCTS_CACHE_KEY = Some meta \<and> JSON_parse meta = Inr (JObj kvs)"
  then show "ProductCache_check_meta now s =
        (if older_than_window now (obj_get kvs (lit ''timestamp'')) then MetaExpired
         else MetaFresh)"
    using check_meta_reads_timestamp by blast
qed

theorem reads_ignore_stored_hashes_witness:
  "ProductCache_check_meta 2000 (ProductCache_set 1000 [rose] empty_cache) = MetaFresh \<and>
   fst (ProductCache_get 2000 (with_hashes bogus (ProductCache_set 1000 [rose] empty_cache))) =
     JArr [rose] \<and>
   fst (ProductCache_getById 2000 (Some 1)
          (with_hashes bogus (ProductCache_set 1000 [rose] empty_cache))) = rose \<and>
   products_store (with_hashes bogus (ProductCache_set 1000 [rose] empty_cache)) =
     [obj_set (lit ''_hash'') (JStr (lit ''bogus'')) (cached_record 1000 rose)]"
proof -
  let ?P = "ProductCache_set 1000 [rose] empty_cache"
  let ?r = "cached_record 1000 rose"
  let ?meta = "JSON_stringify (products_meta 1000 [rose])"
  let ?kvs = "[(lit ''timestamp'', JNum 1000), (lit ''count'', JNum (int (length [rose]))),
               (lit ''hash'', JStr (generateHash (JArr [rose])))]"
  have i: "idb_available empty_cache" by (simp add: empty_cache_def)
  have pl: "list_all plain_product [rose]" "distinct (map product_id [rose])"
    by (simp_all add: plain_examples)
  have store: "products_store ?P = [?r]" by code_simp
  have ls: "localStorage ?P PRODUCTS_CACHE_KEY = Some ?meta"
    by (rule meta_after_set [OF pl i])
  have parse: "JSON_parse ?meta = Inr (JObj ?kvs)"
    using JSON_parse_stringify [OF meta_ok, of 1000 "[rose]"] by (simp add: products_meta_def)
  have ts: "\<not> older_than_window 2000 (obj_get ?kvs (lit ''timestamp''))"
    by (simp add: older_than_window_num CACHE_DURATION_def)
  have idb: "idb_available ?P" by (simp add: idb_available_ProductCache_set i)
  have "obj_get ?r (lit ''_cached_at'') = Some (JNum 1000)" by code_simp
  then have ca: "\<not> older_than_window 2000 (obj_get ?r (lit ''_cached_at''))"
    by (simp add: older_than_window_num CACHE_DURATION_def)
  have "product_id rose = Some 1" by code_simp
  then have sg: "store_get (NumKey 1) (products_store ?P) = Some ?r"
    by (simp add: store store_get_def key_of_cached_record)
  have sm: "strip_meta ?r = rose" by (rule strip_cached_record [OF plain_examples(1)])
  have wh: "products_store (with_hashes bogus ?P) =
              [obj_set (lit ''_hash'') (JStr (lit ''bogus'')) ?r]"
    by (simp add: with_hashes_def store bogus_def)
  have fresh: "ProductCache_check_meta 2000 ?P = MetaFresh"
    using reads_ignore_stored_hashes [of 2000 bogus ?P "Some 1" 1 ?r ?meta ?kvs] ls parse ts
    by simp
  have g: "fst (ProductCache_get 2000 (with_hashes bogus ?P)) = JArr [rose]"
    using reads_ignore_stored_hashes [of 2000 bogus ?P "Some 1" 1 ?r ?meta ?kvs] idb fresh store sm
    by simp
  have b: "fst (ProductCache_getById 2000 (Some 1) (with_hashes bogus ?P)) = rose"
    using reads_ignore_stored_hashes [of 2000 bogus ?P "Some 1" 1 ?r ?meta ?kvs] idb sg ca sm
    by simp
  show ?thesis using fresh g b wh by blast
qed

end
